theory Spec2Isabelle
  imports Main "HOL-Library.Word" "HOL-Library.Multiset" "HOL-Library.List_Lexorder"
begin

section \<open>Derived anagram finder: data model\<close>

text \<open>
  The program is \<^verbatim>\<open>derived_anagram.c\<close>. A C string is modelled by the list of the
  characters that stand before its terminating NUL (a \<open>string\<close>); the capacity
  \<^verbatim>\<open>MAX_WORD\<close> of the character arrays \<^verbatim>\<open>original\<close>, \<^verbatim>\<open>sorted\<close> and \<^verbatim>\<open>new_sorted\<close> is not
  part of the model, the capacity of the path buffer \<^verbatim>\<open>chain[256]\<close> is (see
  \<open>print_chains\<close>). \<^verbatim>\<open>malloc\<close> is taken to succeed: a \<^verbatim>\<open>Word *\<close> is the index of the
  entry in the list of all entries allocated so far, in allocation order.
  The list threaded through the field \<^verbatim>\<open>next\<close> from \<^verbatim>\<open>hash_table[h]\<close> is kept as the list
  of the addresses of bucket \<open>h\<close>, head first.
\<close>

definition HASH_SIZE :: nat where
  "HASH_SIZE = 2000003"

type_synonym addr = nat

record Word =
  original :: string
  sorted_w :: string
  length_w :: nat
  dp :: int

record state =
  heap :: "Word list"
  hash_table :: "nat \<Rightarrow> addr list"

definition init_state :: state where
  "init_state = \<lparr>heap = [], hash_table = (\<lambda>h. [])\<rparr>"

text \<open>
  The value of a \<^verbatim>\<open>char\<close> in an expression: plain \<^verbatim>\<open>char\<close> is signed (as on x86-64),
  so the bytes from 128 on are negative.
\<close>

definition c_int :: "char \<Rightarrow> int" where
  "c_int ch = (if of_char ch < (128 :: int) then of_char ch else of_char ch - 256)"

subsection \<open>\<^verbatim>\<open>hash\<close> (DJB2 on a 64-bit \<^verbatim>\<open>unsigned long\<close>)\<close>

definition hash_step :: "char \<Rightarrow> 64 word \<Rightarrow> 64 word" where
  "hash_step ch h = (push_bit 5 h + h) + of_int (c_int ch)"

definition hash :: "string \<Rightarrow> nat" where
  "hash str = unat (fold hash_step str (5381 :: 64 word)) mod HASH_SIZE"

subsection \<open>\<^verbatim>\<open>sort_string\<close> (insertion sort, in place on the copy)\<close>

text \<open>
  \<open>sort_inner dest key (j + 1)\<close> is the inner \<^verbatim>\<open>while (j >= 0 && dest[j] > key)\<close> loop
  followed by \<^verbatim>\<open>dest[j + 1] = key\<close>; the last argument is \<open>j + 1\<close>, so that it is a
  natural number when the loop leaves with \<open>j = -1\<close>.
\<close>

fun sort_inner :: "string \<Rightarrow> char \<Rightarrow> nat \<Rightarrow> string" where
  "sort_inner dest key 0 = dest[0 := key]"
| "sort_inner dest key (Suc j) =
     (if c_int (dest ! j) > c_int key
      then sort_inner (dest[Suc j := dest ! j]) key j
      else dest[Suc j := key])"

definition sort_string :: "string \<Rightarrow> string" where
  "sort_string src = fold (\<lambda>i dest. sort_inner dest (dest ! i) i) [1..<length src] src"

subsection \<open>\<^verbatim>\<open>insert_word\<close> and \<^verbatim>\<open>find_word\<close>\<close>

definition insert_word :: "state \<Rightarrow> string \<Rightarrow> state" where
  "insert_word s word =
     (let w = \<lparr>original = word, sorted_w = sort_string word,
                length_w = length word, dp = - 1\<rparr>;
          a = length (heap s);
          h = hash (sorted_w w)
      in \<lparr>heap = heap s @ [w], hash_table = (hash_table s)(h := a # hash_table s h)\<rparr>)"

fun find_chain :: "Word list \<Rightarrow> addr list \<Rightarrow> string \<Rightarrow> addr option" where
  "find_chain hp [] key = None"
| "find_chain hp (w # ws) key =
     (if sorted_w (hp ! w) = key then Some w else find_chain hp ws key)"

definition find_word :: "state \<Rightarrow> string \<Rightarrow> addr option" where
  "find_word s key = find_chain (heap s) (hash_table s (hash key)) key"

text \<open>The dictionary loop of \<^verbatim>\<open>main\<close>: the words are inserted in file order.\<close>

definition load :: "string list \<Rightarrow> state" where
  "load ws = fold (\<lambda>w s. insert_word s w) ws init_state"

subsection \<open>\<^verbatim>\<open>longest_chain\<close>\<close>

text \<open>
  \<open>printable\<close> is the range of both \<^verbatim>\<open>for (int c = 33; c <= 126; c++)\<close> loops.
  The merge-insertion of \<open>c\<close> into \<^verbatim>\<open>w->sorted[0 .. w->length)\<close>, the same text in
  \<^verbatim>\<open>longest_chain\<close> and in \<^verbatim>\<open>print_chains\<close>.
\<close>

definition printable :: "int list" where
  "printable = [33..126]"

fun insert_char :: "int \<Rightarrow> string \<Rightarrow> string" where
  "insert_char c [] = [char_of c]"
| "insert_char c (x # xs) =
     (if c_int x < c then x # insert_char c xs else char_of c # x # xs)"

definition new_sorted :: "Word \<Rightarrow> int \<Rightarrow> string" where
  "new_sorted w c = insert_char c (take (length_w w) (sorted_w w))"

definition set_dp :: "state \<Rightarrow> addr \<Rightarrow> int \<Rightarrow> state" where
  "set_dp s w v = s\<lparr>heap := (heap s)[w := (heap s ! w)\<lparr>dp := v\<rparr>]\<rparr>"

text \<open>
  The recursion of \<^verbatim>\<open>longest_chain\<close> is bounded by fuel: \<open>longest_chain n\<close> allows \<open>n\<close>
  nested activations, and \<open>None\<close> says that they did not suffice. \<open>lc_loop\<close> is the
  \<^verbatim>\<open>for (c = 33; c <= 126; c++)\<close> loop over the characters still to try.
\<close>

fun longest_chain :: "nat \<Rightarrow> state \<Rightarrow> addr \<Rightarrow> (state \<times> int) option"
  and lc_loop :: "nat \<Rightarrow> state \<Rightarrow> addr \<Rightarrow> int list \<Rightarrow> int \<Rightarrow> (state \<times> int) option"
where
  "longest_chain 0 s w = None"
| "longest_chain (Suc n) s w =
     (if dp (heap s ! w) \<noteq> - 1 then Some (s, dp (heap s ! w))
      else (case lc_loop n s w printable 1 of
              None \<Rightarrow> None
            | Some (s', max_len) \<Rightarrow> Some (set_dp s' w max_len, max_len)))"
| "lc_loop n s w [] max_len = Some (s, max_len)"
| "lc_loop n s w (c # cs) max_len =
     (case find_word s (new_sorted (heap s ! w) c) of
        None \<Rightarrow> lc_loop n s w cs max_len
      | Some next_word \<Rightarrow>
          (case longest_chain n s next_word of
             None \<Rightarrow> None
           | Some (s', r) \<Rightarrow>
               lc_loop n s' w cs (if 1 + r > max_len then 1 + r else max_len)))"

subsection \<open>\<^verbatim>\<open>print_chains\<close>\<close>

datatype error = StartWordNotFound | PathOverflow

text \<open>
  \<open>chain\<close> is the path buffer of 256 slots, \<open>pc_loop\<close> the loop over the characters
  \<open>c\<close> still to try; a write at \<open>depth \<ge> 256\<close> is outside it and
  is the error \<open>PathOverflow\<close>. The output is the list of the printed lines, each line
  kept as the list of its words \<^verbatim>\<open>chain[0..depth]\<close> (printed joined by \<^verbatim>\<open>->\<close>).
  The program state is passed through, as every C function can write to it.
\<close>

function print_chains ::
    "state \<Rightarrow> addr \<Rightarrow> int \<Rightarrow> string list \<Rightarrow> nat \<Rightarrow> string list list
      \<Rightarrow> error + (state \<times> string list \<times> string list list)"
  and pc_loop ::
    "state \<Rightarrow> addr \<Rightarrow> int \<Rightarrow> string list \<Rightarrow> nat \<Rightarrow> int list \<Rightarrow> string list list
      \<Rightarrow> error + (state \<times> string list \<times> string list list)"
where
  "print_chains s w max_len chain depth out =
     (if depth \<ge> 256 then Inl PathOverflow
      else let chain' = chain[depth := original (heap s ! w)] in
        if int depth + 1 = max_len
        then Inr (s, chain', out @ [take (depth + 1) chain'])
        else pc_loop s w max_len chain' depth printable out)"
| "pc_loop s w max_len chain depth [] out = Inr (s, chain, out)"
| "pc_loop s w max_len chain depth (c # cs) out =
     (case find_word s (new_sorted (heap s ! w) c) of
        None \<Rightarrow> pc_loop s w max_len chain depth cs out
      | Some next_word \<Rightarrow>
          if dp (heap s ! next_word) = max_len - int depth - 1
          then (case print_chains s next_word max_len chain (depth + 1) out of
                  Inl e \<Rightarrow> Inl e
                | Inr (s', chain', out') \<Rightarrow> pc_loop s' w max_len chain' depth cs out')
          else pc_loop s w max_len chain depth cs out)"
  by pat_completeness auto
termination
  by (relation "measure (\<lambda>x. case x of
         Inl (s, w, m, ch, d, out) \<Rightarrow> (if d \<ge> 256 then 0 else (256 - d) * 200 + 150)
       | Inr (s, w, m, ch, d, cs, out) \<Rightarrow> (256 - d) * 200 + length cs + 1)")
     (auto simp: printable_def)

subsection \<open>\<^verbatim>\<open>main\<close>, after the dictionary file has been read into lines\<close>

definition main :: "nat \<Rightarrow> string list \<Rightarrow> string \<Rightarrow> (error + int \<times> string list list) option" where
  "main fuel ws start_word =
     (let s = load ws in
      case find_word s (sort_string start_word) of
        None \<Rightarrow> Some (Inl StartWordNotFound)
      | Some start \<Rightarrow>
          (case longest_chain fuel s start of
             None \<Rightarrow> None
           | Some (s', max_len) \<Rightarrow>
               (case print_chains s' start max_len (replicate 256 []) 0 [] of
                  Inl e \<Rightarrow> Some (Inl e)
                | Inr (s'', chain, out) \<Rightarrow> Some (Inr (max_len, out)))))"

section \<open>Specification-level notions\<close>

text \<open>
  The entries the two \<^verbatim>\<open>for\<close> loops find for an entry: one lookup for each character
  from 33 to 126, in this order.
\<close>

definition successors :: "state \<Rightarrow> addr \<Rightarrow> addr list" where
  "successors s w = List.map_filter (\<lambda>c. find_word s (new_sorted (heap s ! w) c)) printable"

text \<open>A transition path: a non-empty list of entries, each found from the one before.\<close>

fun chain_path :: "state \<Rightarrow> addr list \<Rightarrow> bool" where
  "chain_path s [] = False"
| "chain_path s [a] = (a < length (heap s))"
| "chain_path s (a # b # p) = (a < length (heap s) \<and> b \<in> set (successors s a) \<and> chain_path s (b # p))"

text \<open>The transition relation on entries.\<close>

definition transition :: "state \<Rightarrow> (addr \<times> addr) set" where
  "transition s = {(a, b). a < length (heap s) \<and> b \<in> set (successors s a)}"

text \<open>The length of the longest word of the dictionary.\<close>

definition longest_word :: "string list \<Rightarrow> nat" where
  "longest_word ws = fold max (map length ws) 0"

text \<open>
  The states of a run on the dictionary \<open>ws\<close>: the state after loading, and every state
  that calls of \<^verbatim>\<open>longest_chain\<close> on entries lead to from there. (\<^verbatim>\<open>print_chains\<close> returns
  the state it was given, see \<open>print_chains_state\<close>.)
\<close>

inductive run_state :: "string list \<Rightarrow> state \<Rightarrow> bool" for ws :: "string list" where
  loaded: "run_state ws (load ws)"
| resolved: "run_state ws s \<Longrightarrow> w < length (heap s) \<Longrightarrow> longest_chain n s w = Some (s', v)
      \<Longrightarrow> run_state ws s'"

text \<open>
  \<open>resolve\<close> is the value \<^verbatim>\<open>longest_chain\<close> returns, with fuel for one activation more than
  the longest word has characters.
\<close>

definition resolve :: "string list \<Rightarrow> state \<Rightarrow> addr \<Rightarrow> int option" where
  "resolve ws s w = map_option snd (longest_chain (Suc (longest_word ws)) s w)"

text \<open>
  The chains \<^verbatim>\<open>print_chains\<close> walks from an entry when \<open>k\<close> more words are to come: the
  entries found for the characters in increasing order, those kept whose memo field is
  \<open>k\<close>, as the test \<^verbatim>\<open>next_word->dp == max_len - depth - 1\<close> does.
\<close>

fun paths :: "state \<Rightarrow> nat \<Rightarrow> addr \<Rightarrow> addr list list" where
  "paths s 0 a = [[a]]"
| "paths s (Suc k) a =
     concat (map (\<lambda>b. map ((#) a) (paths s k b))
                 (filter (\<lambda>b. dp (heap s ! b) = int (Suc k)) (successors s a)))"

definition words_of :: "state \<Rightarrow> addr list \<Rightarrow> string list" where
  "words_of s p = map (\<lambda>a. original (heap s ! a)) p"

text \<open>
  The character by which the canonical form of \<open>v\<close> comes from the one of \<open>u\<close>, and the
  characters inserted along a chain of words.
\<close>

definition inserted :: "string \<Rightarrow> string \<Rightarrow> int option" where
  "inserted u v = List.find (\<lambda>c. insert_char c (sort_string u) = sort_string v) printable"

fun choices :: "string list \<Rightarrow> int option list" where
  "choices (u # v # ch) = inserted u v # choices (v # ch)"
| "choices ch = []"

text \<open>
  \<^verbatim>\<open>fgets(word, MAX_WORD, file)\<close> reads at most \<^verbatim>\<open>MAX_WORD - 1\<close> characters: the words that
  \<^verbatim>\<open>main\<close> inserts are shorter than \<^verbatim>\<open>MAX_WORD\<close>.
\<close>

definition MAX_WORD :: nat where
  "MAX_WORD = 256"

definition read_by_main :: "string list \<Rightarrow> bool" where
  "read_by_main ws = list_all (\<lambda>w. length w < MAX_WORD) ws"

subsection \<open>Auxiliary functions of the proofs\<close>

text \<open>\<open>place\<close> is one pass of the inner loop of \<^verbatim>\<open>sort_string\<close> on the reversed prefix.\<close>

fun place :: "char \<Rightarrow> string \<Rightarrow> string" where
  "place key [] = [key]"
| "place key (x # xs) = (if c_int x > c_int key then x # place key xs else key # x # xs)"

definition sorted_str :: "string \<Rightarrow> bool" where
  "sorted_str xs = sorted (map c_int xs)"

text \<open>The state with every memo field reset.\<close>

definition unmemo :: "state \<Rightarrow> state" where
  "unmemo s = s\<lparr>heap := map (\<lambda>w. w\<lparr>dp := - 1\<rparr>) (heap s)\<rparr>"

text \<open>The index as a function of the dictionary: the last word with the canonical form.\<close>

definition lookup :: "string list \<Rightarrow> string \<Rightarrow> addr option" where
  "lookup ws key = List.find (\<lambda>i. sort_string (ws ! i) = key) (rev [0..<length ws])"

definition succs :: "string list \<Rightarrow> addr \<Rightarrow> addr list" where
  "succs ws a = List.map_filter (\<lambda>c. lookup ws (insert_char c (sort_string (ws ! a)))) printable"

text \<open>
  The depth-first search without the memo, on the dictionary: \<open>step f ws a\<close> is one
  turn of the loop for the entry \<open>a\<close>, where \<open>f\<close> gives the result of the recursive call.
\<close>

definition step :: "(addr \<Rightarrow> int) \<Rightarrow> string list \<Rightarrow> addr \<Rightarrow> int \<Rightarrow> int \<Rightarrow> int" where
  "step f ws a c m =
     (case lookup ws (insert_char c (sort_string (ws ! a))) of
        None \<Rightarrow> m
      | Some b \<Rightarrow> if 1 + f b > m then 1 + f b else m)"

primrec dfs :: "nat \<Rightarrow> string list \<Rightarrow> addr \<Rightarrow> int" where
  "dfs 0 ws = (\<lambda>a. 1)"
| "dfs (Suc n) ws = (\<lambda>a. fold (step (dfs n ws) ws a) printable 1)"

definition chain_length :: "string list \<Rightarrow> addr \<Rightarrow> int" where
  "chain_length ws a = dfs (Suc (longest_word ws - length (ws ! a))) ws a"

definition memo_ok :: "string list \<Rightarrow> state \<Rightarrow> bool" where
  "memo_ok ws s =
     (\<forall>a < length ws. dp (heap s ! a) \<noteq> - 1 \<longrightarrow>
        dp (heap s ! a) = chain_length ws a \<and> (\<forall>b \<in> set (succs ws a). dp (heap s ! b) \<noteq> - 1))"

definition run_inv :: "string list \<Rightarrow> state \<Rightarrow> bool" where
  "run_inv ws s = (unmemo s = load ws \<and> memo_ok ws s)"

definition memo_mono :: "state \<Rightarrow> state \<Rightarrow> bool" where
  "memo_mono s s' = (\<forall>a < length (heap s). dp (heap s ! a) \<noteq> - 1 \<longrightarrow> dp (heap s' ! a) = dp (heap s ! a))"

text \<open>
  A dictionary of \<open>n\<close> words in which every word is the one before with one more
  character: the empty word, \<^verbatim>\<open>a\<close>, \<^verbatim>\<open>aa\<close>, and so on up to \<open>n - 1\<close> characters.
\<close>

definition a_words :: "nat \<Rightarrow> string list" where
  "a_words n = map (\<lambda>k. replicate k CHR ''a'') [0..<n]"

section \<open>Sorting and insertion\<close>

lemma length_sort_inner: "length (sort_inner dest key j) = length dest"
  by (induction dest key j rule: sort_inner.induct) auto



lemma c_int_char_of: "0 \<le> c \<Longrightarrow> c < 128 \<Longrightarrow> c_int (char_of c) = c"
  by (simp add: c_int_def)

lemma sort_inner_eq:
  "j < length d \<Longrightarrow> sort_inner d key j = rev (place key (rev (take j d))) @ drop (Suc j) d"
proof (induction j arbitrary: d)
  case 0
  then show ?case by (cases d) auto
next
  case (Suc j)
  then have j: "j < length d" by simp
  show ?case
  proof (cases "c_int (d ! j) > c_int key")
    case True
    let ?d = "d[Suc j := d ! j]"
    have "sort_inner d key (Suc j) = sort_inner ?d key j" using True by simp
    also have "\<dots> = rev (place key (rev (take j ?d))) @ drop (Suc j) ?d"
      using Suc.IH[of ?d] j by simp
    also have "take j ?d = take j d" by simp
    also have "drop (Suc j) ?d = d ! j # drop (Suc (Suc j)) d"
      using Suc.prems by (simp add: drop_update_swap Cons_nth_drop_Suc[symmetric] del: drop_Suc_Cons)
    finally show ?thesis using True j by (simp add: take_Suc_conv_app_nth)
  next
    case False
    then show ?thesis using Suc.prems j
      by (simp add: upd_conv_take_nth_drop take_Suc_conv_app_nth)
  qed
qed

lemma length_place: "length (place k xs) = Suc (length xs)"
  by (induction xs) auto

lemma length_fold_place: "length (fold place xs acc) = length xs + length acc"
  by (induction xs arbitrary: acc) (auto simp: length_place)

lemma sort_string_fold:
  "1 \<le> i \<Longrightarrow> i \<le> length src \<Longrightarrow>
   fold (\<lambda>i dest. sort_inner dest (dest ! i) i) [1..<i] src
     = rev (fold place (take i src) []) @ drop i src"
proof (induction i rule: nat_induct_at_least)
  case base
  then show ?case by (cases src) auto
next
  case (Suc i)
  let ?p = "rev (fold place (take i src) [])"
  let ?d = "?p @ drop i src"
  have i: "i < length src" using Suc.prems by simp
  have lp: "length ?p = i" using i by (simp add: length_fold_place)
  have IH: "fold (\<lambda>i dest. sort_inner dest (dest ! i) i) [1..<i] src = ?d"
    using Suc.IH i by simp
  have nth: "?d ! i = src ! i" using lp i by (simp add: nth_append)
  have tk: "take i ?d = ?p" using lp by simp
  have dr: "drop (Suc i) ?d = drop (Suc i) src" using lp by simp
  have len: "i < length ?d" using lp i by simp
  have "fold (\<lambda>i dest. sort_inner dest (dest ! i) i) [1..<Suc i] src
          = sort_inner ?d (?d ! i) i"
    using Suc.hyps IH by simp
  also have "\<dots> = rev (place (src ! i) (rev (take i ?d))) @ drop (Suc i) ?d"
    using sort_inner_eq[OF len] nth by simp
  also have "\<dots> = rev (place (src ! i) (fold place (take i src) [])) @ drop (Suc i) src"
    using tk dr by simp
  finally show ?case using i by (simp add: take_Suc_conv_app_nth)
qed

lemma sort_string_eq: "sort_string src = rev (fold place src [])"
proof (cases src)
  case Nil
  then show ?thesis by (simp add: sort_string_def)
next
  case (Cons a list)
  then show ?thesis
    using sort_string_fold[of "length src" src] by (simp add: sort_string_def)
qed

lemma mset_place: "mset (place k xs) = add_mset k (mset xs)"
  by (induction xs) auto

lemma mset_fold_place: "mset (fold place xs acc) = mset xs + mset acc"
  by (induction xs arbitrary: acc) (auto simp: mset_place)

lemma set_place: "set (place k xs) = insert k (set xs)"
  by (induction xs) auto

lemma desc_place:
  "sorted_wrt (\<lambda>a b. c_int b \<le> c_int a) xs \<Longrightarrow> sorted_wrt (\<lambda>a b. c_int b \<le> c_int a) (place k xs)"
  by (induction xs) (auto simp: set_place)

lemma desc_fold_place:
  "sorted_wrt (\<lambda>a b. c_int b \<le> c_int a) acc \<Longrightarrow> sorted_wrt (\<lambda>a b. c_int b \<le> c_int a) (fold place xs acc)"
  by (induction xs arbitrary: acc) (auto simp: desc_place)

lemma mset_sort_string: "mset (sort_string xs) = mset xs"
  by (simp add: sort_string_eq mset_fold_place)

lemma length_sort_string: "length (sort_string xs) = length xs"
  by (simp add: sort_string_eq length_fold_place)

lemma sorted_sort_string: "sorted_str (sort_string xs)"
  using desc_fold_place[of "[]" xs]
  by (simp add: sorted_str_def sort_string_eq sorted_wrt_rev sorted_map)

lemma mset_insert_char: "mset (insert_char c xs) = add_mset (char_of c) (mset xs)"
  by (induction xs) auto

lemma length_insert_char: "length (insert_char c xs) = Suc (length xs)"
  by (induction xs) auto

lemma set_insert_char: "set (insert_char c xs) = insert (char_of c) (set xs)"
  by (induction xs) auto

lemma sorted_insert_char:
  "sorted_str xs \<Longrightarrow> 0 \<le> c \<Longrightarrow> c < 128 \<Longrightarrow> sorted_str (insert_char c xs)"
  by (induction xs) (auto simp: sorted_str_def set_insert_char c_int_char_of)


section \<open>The index\<close>

lemma load_snoc: "load (ws @ [w]) = insert_word (load ws) w"
  by (simp add: load_def)

lemma heap_load:
  "heap (load ws) = map (\<lambda>w. \<lparr>original = w, sorted_w = sort_string w, length_w = length w, dp = - 1\<rparr>) ws"
  by (induction ws rule: rev_induct) (simp_all add: load_snoc insert_word_def Let_def, simp add: load_def init_state_def)

lemma length_heap_load: "length (heap (load ws)) = length ws"
  by (simp add: heap_load)

lemma table_load:
  "hash_table (load ws) h = rev (filter (\<lambda>i. hash (sort_string (ws ! i)) = h) [0..<length ws])"
proof (induction ws arbitrary: h rule: rev_induct)
  case Nil
  then show ?case by (simp add: load_def init_state_def)
next
  case (snoc w ws)
  have "filter (\<lambda>i. hash (sort_string ((ws @ [w]) ! i)) = h) [0..<length ws]
        = filter (\<lambda>i. hash (sort_string (ws ! i)) = h) [0..<length ws]"
    by (rule filter_cong) (auto simp: nth_append)
  then show ?case using snoc
    by (simp add: load_snoc insert_word_def Let_def length_heap_load)
qed

lemma find_chain_find: "find_chain hp as k = List.find (\<lambda>a. sorted_w (hp ! a) = k) as"
  by (induction as) auto

lemma find_filter_imp: "(\<And>x. P x \<Longrightarrow> Q x) \<Longrightarrow> List.find P (filter Q xs) = List.find P xs"
  by (induction xs) auto

lemma find_word_load: "find_word (load ws) k = lookup ws k"
proof -
  have "find_word (load ws) k
        = List.find (\<lambda>a. sorted_w (heap (load ws) ! a) = k)
            (filter (\<lambda>i. hash (sort_string (ws ! i)) = hash k) (rev [0..<length ws]))"
    by (simp add: find_word_def find_chain_find table_load rev_filter)
  also have "\<dots> = List.find (\<lambda>a. sort_string (ws ! a) = k)
            (filter (\<lambda>i. hash (sort_string (ws ! i)) = hash k) (rev [0..<length ws]))"
    by (rule find_cong) (auto simp: heap_load)
  also have "\<dots> = lookup ws k"
    unfolding lookup_def by (rule find_filter_imp) auto
  finally show ?thesis .
qed

lemma lookup_SomeD: "lookup ws k = Some b \<Longrightarrow> b < length ws \<and> sort_string (ws ! b) = k"
  by (auto simp: lookup_def find_Some_iff rev_nth)

lemma lookup_None_iff: "lookup ws k = None \<longleftrightarrow> (\<forall>i < length ws. sort_string (ws ! i) \<noteq> k)"
  by (auto simp: lookup_def find_None_iff)

lemma lookup_Some_iff:
  "lookup ws k = Some b \<longleftrightarrow>
     b < length ws \<and> sort_string (ws ! b) = k \<and> (\<forall>i < length ws. b < i \<longrightarrow> sort_string (ws ! i) \<noteq> k)"
proof
  assume L: "lookup ws k = Some b"
  then obtain i where i: "i < length (rev [0..<length ws])" "sort_string (ws ! (rev [0..<length ws] ! i)) = k"
     "b = rev [0..<length ws] ! i" "\<forall>j<i. sort_string (ws ! (rev [0..<length ws] ! j)) \<noteq> k"
    by (auto simp: lookup_def find_Some_iff)
  have b: "b = length ws - Suc i" using i(1,3) by (simp add: rev_nth)
  show "b < length ws \<and> sort_string (ws ! b) = k \<and> (\<forall>i < length ws. b < i \<longrightarrow> sort_string (ws ! i) \<noteq> k)"
  proof (intro conjI allI impI)
    show "b < length ws" using lookup_SomeD[OF L] by simp
    show "sort_string (ws ! b) = k" using lookup_SomeD[OF L] by simp
    fix x assume x: "x < length ws" "b < x"
    let ?j = "length ws - Suc x"
    have "?j < i" using x b i(1) by simp
    then have "sort_string (ws ! (rev [0..<length ws] ! ?j)) \<noteq> k" using i(4) by blast
    moreover have "rev [0..<length ws] ! ?j = x" using x by (simp add: rev_nth)
    ultimately show "sort_string (ws ! x) \<noteq> k" by simp
  qed
next
  assume R: "b < length ws \<and> sort_string (ws ! b) = k \<and> (\<forall>i < length ws. b < i \<longrightarrow> sort_string (ws ! i) \<noteq> k)"
  then obtain c where c: "lookup ws k = Some c"
    using lookup_None_iff[of ws k] by (cases "lookup ws k") auto
  have c1: "c < length ws" "sort_string (ws ! c) = k" using lookup_SomeD[OF c] by auto
  have c2: "\<forall>i < length ws. c < i \<longrightarrow> sort_string (ws ! i) \<noteq> k"
  proof -
    obtain i where i: "i < length (rev [0..<length ws])" "c = rev [0..<length ws] ! i"
         "\<forall>j<i. sort_string (ws ! (rev [0..<length ws] ! j)) \<noteq> k"
      using c by (auto simp: lookup_def find_Some_iff)
    have ci: "c = length ws - Suc i" using i(1,2) by (simp add: rev_nth)
    show ?thesis
    proof (intro allI impI)
      fix x assume x: "x < length ws" "c < x"
      let ?j = "length ws - Suc x"
      have "?j < i" using x ci i(1) by simp
      then have "sort_string (ws ! (rev [0..<length ws] ! ?j)) \<noteq> k" using i(3) by blast
      moreover have "rev [0..<length ws] ! ?j = x" using x by (simp add: rev_nth)
      ultimately show "sort_string (ws ! x) \<noteq> k" by simp
    qed
  qed
  have "c = b"
  proof (rule ccontr)
    assume "c \<noteq> b"
    then consider "c < b" | "b < c" by linarith
    then show False using R c1 c2 by cases auto
  qed
  then show "lookup ws k = Some b" using c by simp
qed

lemma inv_heap:
  assumes "unmemo s = load ws"
  shows "length (heap s) = length ws"
    and "a < length ws \<Longrightarrow> original (heap s ! a) = ws ! a"
    and "a < length ws \<Longrightarrow> sorted_w (heap s ! a) = sort_string (ws ! a)"
    and "a < length ws \<Longrightarrow> length_w (heap s ! a) = length (ws ! a)"
    and "hash_table s = hash_table (load ws)"
proof -
  have h: "map (\<lambda>w. w\<lparr>dp := - 1\<rparr>) (heap s) = heap (load ws)"
    using assms by (metis unmemo_def state.select_convs(1) state.update_convs(1) state.surjective)
  show len: "length (heap s) = length ws"
    using arg_cong[OF h, of length] by (simp add: heap_load)
  show "hash_table s = hash_table (load ws)"
    using assms by (metis unmemo_def state.select_convs(2) state.update_convs(1) state.surjective)
  {
    assume a: "a < length ws"
    have "(map (\<lambda>w. w\<lparr>dp := - 1\<rparr>) (heap s)) ! a = heap (load ws) ! a" using h by simp
    then have e: "(heap s ! a)\<lparr>dp := - 1\<rparr> = \<lparr>original = ws ! a, sorted_w = sort_string (ws ! a), length_w = length (ws ! a), dp = - 1\<rparr>"
      using a len by (simp add: heap_load)
    show "original (heap s ! a) = ws ! a" using arg_cong[OF e, of original] by simp
    show "sorted_w (heap s ! a) = sort_string (ws ! a)" using arg_cong[OF e, of sorted_w] by simp
    show "length_w (heap s ! a) = length (ws ! a)" using arg_cong[OF e, of length_w] by simp
  }
qed

lemma find_word_inv:
  assumes "unmemo s = load ws"
  shows "find_word s k = lookup ws k"
proof -
  have "find_word s k = List.find (\<lambda>a. sorted_w (heap s ! a) = k) (hash_table (load ws) (hash k))"
    by (simp add: find_word_def find_chain_find inv_heap(5)[OF assms])
  also have "\<dots> = List.find (\<lambda>a. sorted_w (heap (load ws) ! a) = k) (hash_table (load ws) (hash k))"
    by (rule find_cong) (auto simp: table_load inv_heap(3)[OF assms] heap_load)
  also have "\<dots> = find_word (load ws) k"
    by (simp add: find_word_def find_chain_find)
  finally show ?thesis by (simp add: find_word_load)
qed

lemma new_sorted_inv:
  "unmemo s = load ws \<Longrightarrow> a < length ws \<Longrightarrow> new_sorted (heap s ! a) c = insert_char c (sort_string (ws ! a))"
  by (simp add: new_sorted_def inv_heap length_sort_string)

lemma successors_inv:
  "unmemo s = load ws \<Longrightarrow> a < length ws \<Longrightarrow> successors s a = succs ws a"
  by (simp add: successors_def succs_def new_sorted_inv find_word_inv)

lemma unmemo_load: "unmemo (load ws) = load ws"
  by (rule state.equality) (simp_all add: unmemo_def heap_load)

lemma unmemo_set_dp: "unmemo (set_dp s a v) = unmemo s"
proof (cases "a < length (heap s)")
  case True
  then show ?thesis
    by (intro state.equality) (auto simp: unmemo_def set_dp_def list_eq_iff_nth_eq nth_list_update)
next
  case False
  then have "(heap s)[a := (heap s ! a)\<lparr>dp := v\<rparr>] = heap s" by (intro list_update_beyond) simp
  then show ?thesis by (simp add: unmemo_def set_dp_def)
qed

section \<open>The search without the memo\<close>

lemma le_fold_max: "(m::nat) \<le> fold max xs m"
  by (induction xs arbitrary: m) (auto intro: order_trans[OF max.cobounded2])

lemma mem_le_fold_max: "x \<in> set xs \<Longrightarrow> (x::nat) \<le> fold max xs m"
proof (induction xs arbitrary: m)
  case Nil
  then show ?case by simp
next
  case (Cons y ys)
  show ?case
  proof (cases "x = y")
    case True
    have "x \<le> max y m" using True by simp
    also have "\<dots> \<le> fold max ys (max y m)" by (rule le_fold_max)
    finally show ?thesis by simp
  next
    case False
    then show ?thesis using Cons by auto
  qed
qed

lemma length_le_longest: "a < length ws \<Longrightarrow> length (ws ! a) \<le> longest_word ws"
  unfolding longest_word_def by (rule mem_le_fold_max) simp

text \<open>A successor is one character longer.\<close>

lemma lookup_insert_length:
  "lookup ws (insert_char c (sort_string (ws ! a))) = Some b \<Longrightarrow>
     b < length ws \<and> length (ws ! b) = Suc (length (ws ! a))"
proof -
  assume L: "lookup ws (insert_char c (sort_string (ws ! a))) = Some b"
  have b: "b < length ws" and e: "sort_string (ws ! b) = insert_char c (sort_string (ws ! a))"
    using lookup_SomeD[OF L] by auto
  have "length (sort_string (ws ! b)) = Suc (length (sort_string (ws ! a)))"
    using e by (simp add: length_insert_char)
  then show ?thesis using b by (simp add: length_sort_string)
qed

lemma fold_step_cong:
  "(\<And>c b. c \<in> set cs \<Longrightarrow> lookup ws (insert_char c (sort_string (ws ! a))) = Some b \<Longrightarrow> f b = g b)
   \<Longrightarrow> fold (step f ws a) cs m = fold (step g ws a) cs m"
proof (induction cs arbitrary: m)
  case Nil
  then show ?case by simp
next
  case (Cons c cs)
  have "step f ws a c m = step g ws a c m"
    using Cons.prems[of c] by (auto simp: step_def split: option.splits)
  moreover have "fold (step f ws a) cs m' = fold (step g ws a) cs m'" for m'
    by (rule Cons.IH) (use Cons.prems in auto)
  ultimately show ?case by simp
qed

lemma dfs_fuel_eq:
  "a < length ws \<Longrightarrow> longest_word ws - length (ws ! a) < n \<Longrightarrow>
   longest_word ws - length (ws ! a) < m \<Longrightarrow> dfs n ws a = dfs m ws a"
proof (induction n arbitrary: a m)
  case 0
  then show ?case by simp
next
  case (Suc n)
  obtain m' where m: "m = Suc m'" using Suc.prems(3) by (cases m) auto
  have "fold (step (dfs n ws) ws a) printable 1 = fold (step (dfs m' ws) ws a) printable 1"
  proof (rule fold_step_cong)
    fix c b assume "lookup ws (insert_char c (sort_string (ws ! a))) = Some b"
    then have b: "b < length ws" "length (ws ! b) = Suc (length (ws ! a))"
      using lookup_insert_length by auto
    have "length (ws ! b) \<le> longest_word ws" using b(1) by (rule length_le_longest)
    then have "longest_word ws - length (ws ! b) < n" "longest_word ws - length (ws ! b) < m'"
      using b(2) Suc.prems m by simp_all
    then show "dfs n ws b = dfs m' ws b" by (rule Suc.IH[OF b(1)])
  qed
  then show ?case using m by simp
qed

lemma dfs_fuel:
  "a < length ws \<Longrightarrow> longest_word ws - length (ws ! a) < n \<Longrightarrow> dfs n ws a = chain_length ws a"
  unfolding chain_length_def by (rule dfs_fuel_eq) simp_all

lemma chain_length_rec:
  assumes "a < length ws"
  shows "chain_length ws a = fold (step (chain_length ws) ws a) printable 1"
proof -
  let ?r = "longest_word ws - length (ws ! a)"
  have "fold (step (dfs ?r ws) ws a) printable 1 = fold (step (chain_length ws) ws a) printable 1"
  proof (rule fold_step_cong)
    fix c b assume "lookup ws (insert_char c (sort_string (ws ! a))) = Some b"
    then have b: "b < length ws" "length (ws ! b) = Suc (length (ws ! a))"
      using lookup_insert_length by auto
    have "length (ws ! b) \<le> longest_word ws" using b(1) by (rule length_le_longest)
    then have "longest_word ws - length (ws ! b) < ?r" using b(2) by simp
    then show "dfs ?r ws b = chain_length ws b" using b(1) by (rule dfs_fuel[rotated])
  qed
  then show ?thesis by (simp add: chain_length_def)
qed

lemma le_fold_step: "m \<le> fold (step f ws a) cs m"
proof (induction cs arbitrary: m)
  case Nil
  then show ?case by simp
next
  case (Cons c cs)
  have "m \<le> step f ws a c m" by (simp add: step_def split: option.splits)
  also have "\<dots> \<le> fold (step f ws a) cs (step f ws a c m)" by (rule Cons.IH)
  finally show ?case by simp
qed

lemma succ_le_fold_step:
  "c \<in> set cs \<Longrightarrow> lookup ws (insert_char c (sort_string (ws ! a))) = Some b
    \<Longrightarrow> 1 + f b \<le> fold (step f ws a) cs m"
proof (induction cs arbitrary: m)
  case Nil
  then show ?case by simp
next
  case (Cons d cs)
  show ?case
  proof (cases "c = d")
    case True
    have "1 + f b \<le> step f ws a d m" using True Cons.prems(2) by (simp add: step_def)
    also have "\<dots> \<le> fold (step f ws a) cs (step f ws a d m)" by (rule le_fold_step)
    finally show ?thesis by simp
  next
    case False
    then show ?thesis using Cons by auto
  qed
qed

lemma fold_step_cases:
  "fold (step f ws a) cs m = m \<or>
   (\<exists>c \<in> set cs. \<exists>b. lookup ws (insert_char c (sort_string (ws ! a))) = Some b
       \<and> fold (step f ws a) cs m = 1 + f b)"
proof (induction cs arbitrary: m)
  case Nil
  then show ?case by simp
next
  case (Cons d cs)
  have s: "step f ws a d m = m \<or> (\<exists>b. lookup ws (insert_char d (sort_string (ws ! a))) = Some b \<and> step f ws a d m = 1 + f b)"
    by (auto simp: step_def split: option.splits)
  from Cons.IH[of "step f ws a d m"] s show ?case by auto
qed

lemma chain_length_ge1:
  assumes "a < length ws"
  shows "1 \<le> chain_length ws a"
proof -
  have "1 \<le> fold (step (chain_length ws) ws a) printable 1" by (rule le_fold_step)
  then show ?thesis by (simp only: chain_length_rec[OF assms, symmetric])
qed

section \<open>\<^verbatim>\<open>longest_chain\<close> computes the search and keeps the memo right\<close>

lemma mem_succs:
  "b \<in> set (succs ws a) \<longleftrightarrow>
     (\<exists>c \<in> set printable. lookup ws (insert_char c (sort_string (ws ! a))) = Some b)"
  by (force simp: succs_def map_filter_def)

lemma succs_length:
  "b \<in> set (succs ws a) \<Longrightarrow> b < length ws \<and> length (ws ! b) = Suc (length (ws ! a))"
  using lookup_insert_length by (auto simp: mem_succs)

lemma length_heap_set_dp: "length (heap (set_dp s w v)) = length (heap s)"
  by (simp add: set_dp_def)

lemma dp_set_dp:
  "w < length (heap s) \<Longrightarrow> dp (heap (set_dp s w v) ! x) = (if x = w then v else dp (heap s ! x))"
  by (simp add: set_dp_def nth_list_update)

lemma memo_mono_refl: "memo_mono s s"
  by (simp add: memo_mono_def)

lemma memo_mono_trans:
  "memo_mono s s1 \<Longrightarrow> memo_mono s1 s2 \<Longrightarrow> length (heap s1) = length (heap s) \<Longrightarrow> memo_mono s s2"
  by (auto simp: memo_mono_def)

lemma invD:
  assumes "run_inv ws s"
  shows "unmemo s = load ws" and "memo_ok ws s" and "length (heap s) = length ws"
  using assms inv_heap(1)[of s ws] by (auto simp: run_inv_def)

lemma lc_correct:
  "run_inv ws s \<Longrightarrow> w < length ws \<Longrightarrow> longest_word ws - length (ws ! w) < n \<Longrightarrow>
     \<exists>s'. longest_chain n s w = Some (s', chain_length ws w) \<and> run_inv ws s' \<and> memo_mono s s'
        \<and> dp (heap s' ! w) = chain_length ws w
        \<and> (\<forall>x < length ws. length (ws ! x) < length (ws ! w) \<longrightarrow> dp (heap s' ! x) = dp (heap s ! x))"
  and lc_loop_correct:
  "run_inv ws s \<Longrightarrow> w < length ws \<Longrightarrow> longest_word ws - length (ws ! w) \<le> n \<Longrightarrow>
     \<exists>s'. lc_loop n s w cs m = Some (s', fold (step (chain_length ws) ws w) cs m) \<and> run_inv ws s'
        \<and> memo_mono s s'
        \<and> (\<forall>c \<in> set cs. \<forall>b. lookup ws (insert_char c (sort_string (ws ! w))) = Some b
              \<longrightarrow> dp (heap s' ! b) \<noteq> - 1)
        \<and> (\<forall>x < length ws. length (ws ! x) \<le> length (ws ! w) \<longrightarrow> dp (heap s' ! x) = dp (heap s ! x))"
proof (induction n s w and n s w cs m rule: longest_chain_lc_loop.induct)
  case (1 s w)
  then show ?case by simp
next
  case (2 n s w)
  note inv = \<open>run_inv ws s\<close> and w = \<open>w < length ws\<close>
  have len: "length (heap s) = length ws" using invD(3)[OF inv] .
  show ?case
  proof (cases "dp (heap s ! w) = - 1")
    case False
    then have "dp (heap s ! w) = chain_length ws w"
      using invD(2)[OF inv] w by (simp add: memo_ok_def)
    then show ?thesis using False inv by (auto simp: memo_mono_refl)
  next
    case True
    have "longest_word ws - length (ws ! w) \<le> n" using "2.prems"(3) by simp
    from "2.IH"[OF _ inv w this] True
    obtain s1 where s1: "lc_loop n s w printable 1 = Some (s1, fold (step (chain_length ws) ws w) printable 1)"
        "run_inv ws s1" "memo_mono s s1"
        "\<forall>c \<in> set printable. \<forall>b. lookup ws (insert_char c (sort_string (ws ! w))) = Some b
              \<longrightarrow> dp (heap s1 ! b) \<noteq> - 1"
        "\<forall>x < length ws. length (ws ! x) \<le> length (ws ! w) \<longrightarrow> dp (heap s1 ! x) = dp (heap s ! x)"
      by auto
    let ?v = "chain_length ws w"
    let ?s' = "set_dp s1 w ?v"
    have v: "fold (step (chain_length ws) ws w) printable 1 = ?v"
      using chain_length_rec[OF w] by simp
    have len1: "length (heap s1) = length ws" using invD(3)[OF s1(2)] .
    have w1: "w < length (heap s1)" using w len1 by simp
    have v1: "?v \<noteq> - 1" using chain_length_ge1[OF w] by simp
    have res: "longest_chain (Suc n) s w = Some (?s', ?v)"
      using True s1(1) v by simp
    have mo: "memo_ok ws ?s'"
      unfolding memo_ok_def
    proof (intro allI impI)
      fix a assume a: "a < length ws" and d: "dp (heap ?s' ! a) \<noteq> - 1"
      show "dp (heap ?s' ! a) = chain_length ws a \<and> (\<forall>b\<in>set (succs ws a). dp (heap ?s' ! b) \<noteq> - 1)"
      proof (cases "a = w")
        case True
        have "\<forall>b\<in>set (succs ws w). dp (heap ?s' ! b) \<noteq> - 1"
        proof
          fix b assume b: "b \<in> set (succs ws w)"
          then have "dp (heap s1 ! b) \<noteq> - 1" using s1(4) by (auto simp: mem_succs)
          then show "dp (heap ?s' ! b) \<noteq> - 1" using v1 by (simp add: dp_set_dp[OF w1])
        qed
        then show ?thesis using True by (simp add: dp_set_dp[OF w1])
      next
        case False
        then have d1: "dp (heap s1 ! a) \<noteq> - 1" using d by (simp add: dp_set_dp[OF w1])
        then have "dp (heap s1 ! a) = chain_length ws a" "\<forall>b\<in>set (succs ws a). dp (heap s1 ! b) \<noteq> - 1"
          using invD(2)[OF s1(2)] a by (auto simp: memo_ok_def)
        then show ?thesis using False v1 by (auto simp: dp_set_dp[OF w1])
      qed
    qed
    have inv': "run_inv ws ?s'"
      using invD(1)[OF s1(2)] mo by (simp add: run_inv_def unmemo_set_dp)
    have mm: "memo_mono s ?s'"
      unfolding memo_mono_def
    proof (intro allI impI)
      fix a assume a: "a < length (heap s)" "dp (heap s ! a) \<noteq> - 1"
      then have "a \<noteq> w" using True by auto
      moreover have "dp (heap s1 ! a) = dp (heap s ! a)" using s1(3) a by (simp add: memo_mono_def)
      ultimately show "dp (heap ?s' ! a) = dp (heap s ! a)" by (simp add: dp_set_dp[OF w1])
    qed
    have un: "\<forall>x < length ws. length (ws ! x) < length (ws ! w) \<longrightarrow> dp (heap ?s' ! x) = dp (heap s ! x)"
    proof (intro allI impI)
      fix x assume x: "x < length ws" "length (ws ! x) < length (ws ! w)"
      then have "x \<noteq> w" by auto
      moreover have "dp (heap s1 ! x) = dp (heap s ! x)" using s1(5) x by simp
      ultimately show "dp (heap ?s' ! x) = dp (heap s ! x)" by (simp add: dp_set_dp[OF w1])
    qed
    have "dp (heap ?s' ! w) = ?v" by (simp add: dp_set_dp[OF w1])
    with res inv' mm un show ?thesis by blast
  qed
next
  case (3 n s w max_len)
  then show ?case by (simp add: memo_mono_refl)
next
  case (4 n s w c cs max_len)
  note inv = \<open>run_inv ws s\<close> and w = \<open>w < length ws\<close> and n = \<open>longest_word ws - length (ws ! w) \<le> n\<close>
  have len: "length (heap s) = length ws" using invD(3)[OF inv] .
  have find: "find_word s (new_sorted (heap s ! w) c) = lookup ws (insert_char c (sort_string (ws ! w)))"
    using invD(1)[OF inv] w by (simp add: find_word_inv new_sorted_inv)
  show ?case
  proof (cases "lookup ws (insert_char c (sort_string (ws ! w)))")
    case None
    then have f: "find_word s (new_sorted (heap s ! w) c) = None" using find by simp
    from "4.IH"(1)[OF f inv w n]
    obtain s' where s': "lc_loop n s w cs max_len = Some (s', fold (step (chain_length ws) ws w) cs max_len)"
        "run_inv ws s'" "memo_mono s s'"
        "\<forall>c \<in> set cs. \<forall>b. lookup ws (insert_char c (sort_string (ws ! w))) = Some b
              \<longrightarrow> dp (heap s' ! b) \<noteq> - 1"
        "\<forall>x < length ws. length (ws ! x) \<le> length (ws ! w) \<longrightarrow> dp (heap s' ! x) = dp (heap s ! x)"
      by auto
    have "lc_loop n s w (c # cs) max_len = Some (s', fold (step (chain_length ws) ws w) (c # cs) max_len)"
      using f s'(1) None by (simp add: step_def)
    moreover have "\<forall>c' \<in> set (c # cs). \<forall>b. lookup ws (insert_char c' (sort_string (ws ! w))) = Some b
              \<longrightarrow> dp (heap s' ! b) \<noteq> - 1"
      using s'(4) None by auto
    ultimately show ?thesis using s'(2,3,5) by blast
  next
    case (Some b)
    then have f: "find_word s (new_sorted (heap s ! w) c) = Some b" using find by simp
    have b: "b < length ws" "length (ws ! b) = Suc (length (ws ! w))"
      using lookup_insert_length[OF Some] by auto
    have "length (ws ! b) \<le> longest_word ws" using b(1) by (rule length_le_longest)
    then have rb: "longest_word ws - length (ws ! b) < n" using b(2) n by simp
    from "4.IH"(2)[OF f inv b(1) rb]
    obtain s1 where s1: "longest_chain n s b = Some (s1, chain_length ws b)" "run_inv ws s1" "memo_mono s s1"
        "dp (heap s1 ! b) = chain_length ws b"
        "\<forall>x < length ws. length (ws ! x) < length (ws ! b) \<longrightarrow> dp (heap s1 ! x) = dp (heap s ! x)"
      by auto
    let ?m = "if 1 + chain_length ws b > max_len then 1 + chain_length ws b else max_len"
    from "4.IH"(3)[OF f s1(1) refl s1(2) w n]
    obtain s2 where s2: "lc_loop n s1 w cs ?m = Some (s2, fold (step (chain_length ws) ws w) cs ?m)"
        "run_inv ws s2" "memo_mono s1 s2"
        "\<forall>c \<in> set cs. \<forall>b. lookup ws (insert_char c (sort_string (ws ! w))) = Some b
              \<longrightarrow> dp (heap s2 ! b) \<noteq> - 1"
        "\<forall>x < length ws. length (ws ! x) \<le> length (ws ! w) \<longrightarrow> dp (heap s2 ! x) = dp (heap s1 ! x)"
      by auto
    have len1: "length (heap s1) = length ws" using invD(3)[OF s1(2)] .
    have st: "step (chain_length ws) ws w c max_len = ?m" using Some by (simp add: step_def)
    have res: "lc_loop n s w (c # cs) max_len = Some (s2, fold (step (chain_length ws) ws w) (c # cs) max_len)"
      using f s1(1) s2(1) st by simp
    have mm: "memo_mono s s2" using memo_mono_trans[OF s1(3) s2(3)] len len1 by simp
    have b1: "dp (heap s1 ! b) \<noteq> - 1" using s1(4) chain_length_ge1[OF b(1)] by simp
    then have b2: "dp (heap s2 ! b) \<noteq> - 1" using s2(3) b(1) len1 by (simp add: memo_mono_def)
    have all: "\<forall>c' \<in> set (c # cs). \<forall>b'. lookup ws (insert_char c' (sort_string (ws ! w))) = Some b'
              \<longrightarrow> dp (heap s2 ! b') \<noteq> - 1"
      using s2(4) b2 Some by auto
    have un: "\<forall>x < length ws. length (ws ! x) \<le> length (ws ! w) \<longrightarrow> dp (heap s2 ! x) = dp (heap s ! x)"
      using s1(5) s2(5) b(2) by auto
    from res s2(2) mm all un show ?thesis by blast
  qed
qed

lemma fuel_mono:
  "longest_chain n s w = Some r \<Longrightarrow> n \<le> k \<Longrightarrow> longest_chain k s w = Some r"
  and loop_fuel_mono:
  "lc_loop n s w cs m = Some r \<Longrightarrow> n \<le> k \<Longrightarrow> lc_loop k s w cs m = Some r"
proof (induction n s w and n s w cs m arbitrary: k r and k r rule: longest_chain_lc_loop.induct)
  case (1 s w)
  then show ?case by simp
next
  case (2 n s w)
  obtain k' where k: "k = Suc k'" "n \<le> k'" using "2.prems"(2) by (cases k) auto
  show ?case
  proof (cases "dp (heap s ! w) = - 1")
    case False
    then show ?thesis using "2.prems"(1) k by simp
  next
    case True
    then obtain s1 v where l: "lc_loop n s w printable 1 = Some (s1, v)" and r: "r = (set_dp s1 w v, v)"
      using "2.prems"(1) by (auto split: option.splits)
    have "lc_loop k' s w printable 1 = Some (s1, v)"
      using "2.IH"[OF _ l k(2)] True by simp
    then show ?thesis using True r k by simp
  qed
next
  case (3 n s w max_len)
  then show ?case by simp
next
  case (4 n s w c cs max_len)
  show ?case
  proof (cases "find_word s (new_sorted (heap s ! w) c)")
    case None
    then show ?thesis using "4.IH"(1)[OF None _ "4.prems"(2)] "4.prems"(1) by simp
  next
    case (Some b)
    then obtain s1 v where l: "longest_chain n s b = Some (s1, v)"
      and l2: "lc_loop n s1 w cs (if 1 + v > max_len then 1 + v else max_len) = Some r"
      using "4.prems"(1) by (auto split: option.splits)
    have "longest_chain k s b = Some (s1, v)" using "4.IH"(2)[OF Some l "4.prems"(2)] .
    moreover have "lc_loop k s1 w cs (if 1 + v > max_len then 1 + v else max_len) = Some r"
      using "4.IH"(3)[OF Some l refl l2 "4.prems"(2)] .
    ultimately show ?thesis using Some by simp
  qed
qed

lemma lc_sound:
  assumes "run_inv ws s" "w < length ws" "longest_chain n s w = Some (s', v)"
  shows "v = chain_length ws w" "run_inv ws s'" "memo_mono s s'" "dp (heap s' ! w) = v"
    "\<forall>x < length ws. length (ws ! x) < length (ws ! w) \<longrightarrow> dp (heap s' ! x) = dp (heap s ! x)"
proof -
  let ?k = "max n (Suc (longest_word ws - length (ws ! w)))"
  have 1: "longest_chain ?k s w = Some (s', v)" using fuel_mono[OF assms(3)] by simp
  have k: "longest_word ws - length (ws ! w) < ?k" by (simp add: less_max_iff_disj)
  obtain s2 where s2: "longest_chain ?k s w = Some (s2, chain_length ws w)" "run_inv ws s2" "memo_mono s s2"
     "dp (heap s2 ! w) = chain_length ws w"
     "\<forall>x < length ws. length (ws ! x) < length (ws ! w) \<longrightarrow> dp (heap s2 ! x) = dp (heap s ! x)"
    using lc_correct[OF assms(1,2) k] by auto
  have e: "s2 = s'" "v = chain_length ws w" using 1 s2(1) by auto
  show "v = chain_length ws w" "run_inv ws s'" "memo_mono s s'" "dp (heap s' ! w) = v"
    "\<forall>x < length ws. length (ws ! x) < length (ws ! w) \<longrightarrow> dp (heap s' ! x) = dp (heap s ! x)"
    using s2 e by auto
qed

lemma inv_load: "run_inv ws (load ws)"
  by (simp add: run_inv_def unmemo_load memo_ok_def heap_load)

lemma run_state_inv: "run_state ws s \<Longrightarrow> run_inv ws s"
proof (induction rule: run_state.induct)
  case loaded
  then show ?case by (rule inv_load)
next
  case (resolved s w n s' v)
  have "w < length ws" using resolved.hyps(2) invD(3)[OF resolved.IH] by simp
  then show ?case using lc_sound(2)[OF resolved.IH _ resolved.hyps(3)] by simp
qed

lemma le_longest_word: "a < length ws \<Longrightarrow> longest_word ws - length (ws ! a) < Suc (longest_word ws)"
  by simp

lemma resolve_eq:
  assumes "run_state ws s" "w < length ws"
  shows "resolve ws s w = Some (chain_length ws w)"
proof -
  have "run_inv ws s" using assms(1) by (rule run_state_inv)
  from lc_correct[OF this assms(2) le_longest_word[OF assms(2)]]
  show ?thesis by (auto simp: resolve_def)
qed

section \<open>Chain lengths and transition paths\<close>

lemma step_chain_length:
  assumes "a < length ws" "b \<in> set (succs ws a)"
  shows "1 + chain_length ws b \<le> chain_length ws a"
proof -
  obtain c where c: "c \<in> set printable" "lookup ws (insert_char c (sort_string (ws ! a))) = Some b"
    using assms(2) by (auto simp: mem_succs)
  have "1 + chain_length ws b \<le> fold (step (chain_length ws) ws a) printable 1"
    using c by (rule succ_le_fold_step)
  then show ?thesis by (simp only: chain_length_rec[OF assms(1), symmetric])
qed

lemma chain_length_cases:
  assumes "a < length ws"
  shows "chain_length ws a = 1 \<or> (\<exists>b \<in> set (succs ws a). chain_length ws a = 1 + chain_length ws b)"
proof -
  have "fold (step (chain_length ws) ws a) printable 1 = 1 \<or>
   (\<exists>c \<in> set printable. \<exists>b. lookup ws (insert_char c (sort_string (ws ! a))) = Some b
       \<and> fold (step (chain_length ws) ws a) printable 1 = 1 + chain_length ws b)"
    by (rule fold_step_cases)
  then have "chain_length ws a = 1 \<or>
   (\<exists>c \<in> set printable. \<exists>b. lookup ws (insert_char c (sort_string (ws ! a))) = Some b
       \<and> chain_length ws a = 1 + chain_length ws b)"
    by (simp only: chain_length_rec[OF assms, symmetric])
  then show ?thesis using mem_succs[of _ ws a] by blast
qed

lemma chain_length_no_succ:
  assumes "a < length ws" "succs ws a = []"
  shows "chain_length ws a = 1"
  using chain_length_cases[OF assms(1)] assms(2) by simp

lemma chain_length_Max:
  assumes "a < length ws" "succs ws a \<noteq> []"
  shows "chain_length ws a = Max ((\<lambda>b. 1 + chain_length ws b) ` set (succs ws a))"
proof (rule antisym)
  let ?S = "(\<lambda>b. 1 + chain_length ws b) ` set (succs ws a)"
  have ne: "?S \<noteq> {}" using assms(2) by simp
  show "Max ?S \<le> chain_length ws a"
    using ne step_chain_length[OF assms(1)] by (auto simp: Max_le_iff)
  obtain b0 where b0: "b0 \<in> set (succs ws a)" using assms(2) by (cases "succs ws a") auto
  from chain_length_cases[OF assms(1)]
  show "chain_length ws a \<le> Max ?S"
  proof
    assume 1: "chain_length ws a = 1"
    have "b0 < length ws" using succs_length[OF b0] by simp
    then have "1 \<le> chain_length ws b0" by (rule chain_length_ge1)
    then have "chain_length ws a \<le> 1 + chain_length ws b0" using 1 by simp
    also have "\<dots> \<le> Max ?S" using b0 by (intro Max_ge) auto
    finally show ?thesis .
  next
    assume "\<exists>b \<in> set (succs ws a). chain_length ws a = 1 + chain_length ws b"
    then obtain b where b: "b \<in> set (succs ws a)" "chain_length ws a = 1 + chain_length ws b" by auto
    have "1 + chain_length ws b \<le> Max ?S" using b(1) by (intro Max_ge) auto
    then show ?thesis using b(2) by simp
  qed
qed

lemma chain_length_upper:
  "a < length ws \<Longrightarrow> chain_length ws a \<le> int (longest_word ws) - int (length (ws ! a)) + 1"
proof (induction "longest_word ws - length (ws ! a)" arbitrary: a rule: less_induct)
  case less
  from chain_length_cases[OF less.prems]
  show ?case
  proof
    assume "chain_length ws a = 1"
    then show ?thesis using length_le_longest[OF less.prems] by simp
  next
    assume "\<exists>b \<in> set (succs ws a). chain_length ws a = 1 + chain_length ws b"
    then obtain b where b: "b \<in> set (succs ws a)" "chain_length ws a = 1 + chain_length ws b" by auto
    have bl: "b < length ws" "length (ws ! b) = Suc (length (ws ! a))" using succs_length[OF b(1)] by auto
    have le: "length (ws ! b) \<le> longest_word ws" using bl(1) by (rule length_le_longest)
    then have "longest_word ws - length (ws ! b) < longest_word ws - length (ws ! a)" using bl(2) by simp
    from less.hyps[OF this bl(1)]
    show ?thesis using b(2) bl(2) le by simp
  qed
qed

lemma chain_path_le:
  assumes "run_inv ws s"
  shows "chain_path s (a # p) \<Longrightarrow> int (length (a # p)) \<le> chain_length ws a"
proof (induction p arbitrary: a)
  case Nil
  then have "a < length ws" using invD(3)[OF assms] by simp
  then show ?case using chain_length_ge1 by simp
next
  case (Cons b p)
  have a: "a < length ws" using Cons.prems invD(3)[OF assms] by simp
  have b: "b \<in> set (succs ws a)" using Cons.prems successors_inv[OF invD(1)[OF assms] a] by simp
  have "int (length (b # p)) \<le> chain_length ws b" using Cons.IH Cons.prems by simp
  then show ?case using step_chain_length[OF a b] by simp
qed

lemma chain_path_ex:
  assumes "run_inv ws s"
  shows "a < length ws \<Longrightarrow> \<exists>p. chain_path s (a # p) \<and> int (length (a # p)) = chain_length ws a"
proof (induction "longest_word ws - length (ws ! a)" arbitrary: a rule: less_induct)
  case less
  have ha: "a < length (heap s)" using less.prems invD(3)[OF assms] by simp
  from chain_length_cases[OF less.prems]
  show ?case
  proof
    assume "chain_length ws a = 1"
    then have "chain_path s (a # []) \<and> int (length (a # [])) = chain_length ws a" using ha by simp
    then show ?thesis by blast
  next
    assume "\<exists>b \<in> set (succs ws a). chain_length ws a = 1 + chain_length ws b"
    then obtain b where b: "b \<in> set (succs ws a)" "chain_length ws a = 1 + chain_length ws b" by auto
    have bl: "b < length ws" "length (ws ! b) = Suc (length (ws ! a))" using succs_length[OF b(1)] by auto
    have le: "length (ws ! b) \<le> longest_word ws" using bl(1) by (rule length_le_longest)
    then have "longest_word ws - length (ws ! b) < longest_word ws - length (ws ! a)" using bl(2) by simp
    from less.hyps[OF this bl(1)]
    obtain p where p: "chain_path s (b # p)" "int (length (b # p)) = chain_length ws b" by auto
    have "chain_path s (a # b # p)" using p(1) ha b(1) successors_inv[OF invD(1)[OF assms] less.prems] by simp
    moreover have "int (length (a # b # p)) = chain_length ws a" using p(2) b(2) by simp
    ultimately show ?thesis by blast
  qed
qed

lemma transition_length:
  assumes "run_inv ws s" "(a, b) \<in> transition s"
  shows "a < length ws \<and> b < length ws \<and> length (ws ! b) = Suc (length (ws ! a))"
proof -
  have a: "a < length ws" using assms invD(3)[OF assms(1)] by (simp add: transition_def)
  then have "b \<in> set (succs ws a)"
    using assms(2) successors_inv[OF invD(1)[OF assms(1)] a] by (simp add: transition_def)
  then show ?thesis using succs_length a by blast
qed

lemma trancl_length:
  assumes "run_inv ws s"
  shows "(a, b) \<in> (transition s)\<^sup>+ \<Longrightarrow> length (ws ! a) < length (ws ! b)"
proof (induction rule: trancl.induct)
  case (r_into_trancl a b)
  then show ?case using transition_length[OF assms] by fastforce
next
  case (trancl_into_trancl a b c)
  then show ?case using transition_length[OF assms, of b c] by simp
qed

lemma acyclic_transition: "run_inv ws s \<Longrightarrow> acyclic (transition s)"
  unfolding acyclic_def using trancl_length by fastforce

section \<open>The claims about \<^verbatim>\<open>longest_chain\<close> and the index\<close>

lemma printable_range: "c \<in> set printable \<longleftrightarrow> 33 \<le> c \<and> c \<le> 126"
  by (simp add: printable_def del: upto_rec_numeral)

lemma sorted_new_sorted:
  assumes "run_inv ws s" "w < length ws" "c \<in> set printable"
  shows "sorted_str (new_sorted (heap s ! w) c)"
    and "mset (new_sorted (heap s ! w) c) = add_mset (char_of c) (mset (original (heap s ! w)))"
proof -
  have e: "new_sorted (heap s ! w) c = insert_char c (sort_string (ws ! w))"
    using new_sorted_inv[OF invD(1)[OF assms(1)] assms(2)] .
  have c: "0 \<le> c" "c < 128" using assms(3) by (simp_all add: printable_range)
  show "sorted_str (new_sorted (heap s ! w) c)"
    unfolding e by (rule sorted_insert_char[OF sorted_sort_string c])
  show "mset (new_sorted (heap s ! w) c) = add_mset (char_of c) (mset (original (heap s ! w)))"
    unfolding e using inv_heap(2)[OF invD(1)[OF assms(1)] assms(2)]
    by (simp add: mset_insert_char mset_sort_string)
qed

lemma succs_sail0: "succs [''sail'', ''nails'', ''aliens''] 0 = [1]"
  by code_simp

lemma succs_sail1: "succs [''sail'', ''nails'', ''aliens''] 1 = [2]"
  by code_simp

lemma succs_sail2: "succs [''sail'', ''nails'', ''aliens''] 2 = []"
  by code_simp

lemma successors_load: "a < length ws \<Longrightarrow> successors (load ws) a = succs ws a"
  by (rule successors_inv[OF unmemo_load])

text \<open>
  C1. For every entry \<open>w\<close> of the dictionary, in every state of a run,
  \<^verbatim>\<open>longest_chain\<close> returns a value \<open>v \<ge> 1\<close>: it is 1 when none of the 94 lookups of the
  loop finds an entry, and otherwise the maximum of \<open>1 + resolve b\<close> over the entries found.
  \<open>v\<close> is the number of entries of a longest transition path that starts at \<open>w\<close>: such a
  path with \<open>v\<close> entries exists and none has more. Each key looked up is in sorted order
  and has the characters of the word and the inserted character.
\<close>

theorem longest_chain_longest_path:
  assumes "run_state ws s" "w < length (heap s)"
  shows "\<exists>v. resolve ws s w = Some v \<and> 1 \<le> v
      \<and> (successors s w = [] \<longrightarrow> v = 1)
      \<and> (successors s w \<noteq> [] \<longrightarrow>
            v = Max ((\<lambda>b. 1 + the (resolve ws s b)) ` set (successors s w)))
      \<and> (\<exists>p. chain_path s (w # p) \<and> int (length (w # p)) = v)
      \<and> (\<forall>p. chain_path s (w # p) \<longrightarrow> int (length (w # p)) \<le> v)
      \<and> (\<forall>c \<in> set printable. sorted_str (new_sorted (heap s ! w) c)
            \<and> mset (new_sorted (heap s ! w) c) = add_mset (char_of c) (mset (original (heap s ! w))))"
proof -
  have inv: "run_inv ws s" using assms(1) by (rule run_state_inv)
  have w: "w < length ws" using assms(2) invD(3)[OF inv] by simp
  have su: "successors s w = succs ws w" using successors_inv[OF invD(1)[OF inv] w] .
  let ?v = "chain_length ws w"
  have 1: "resolve ws s w = Some ?v" using resolve_eq[OF assms(1) w] .
  have 2: "1 \<le> ?v" using chain_length_ge1[OF w] .
  have 3: "successors s w = [] \<longrightarrow> ?v = 1" using chain_length_no_succ[OF w] su by simp
  have 4: "successors s w \<noteq> [] \<longrightarrow>
            ?v = Max ((\<lambda>b. 1 + the (resolve ws s b)) ` set (successors s w))"
  proof
    assume ne: "successors s w \<noteq> []"
    have "(\<lambda>b. 1 + the (resolve ws s b)) ` set (succs ws w) = (\<lambda>b. 1 + chain_length ws b) ` set (succs ws w)"
    proof (rule image_cong[OF refl])
      fix b assume "b \<in> set (succs ws w)"
      then have "b < length ws" using succs_length by blast
      then show "1 + the (resolve ws s b) = 1 + chain_length ws b"
        using resolve_eq[OF assms(1)] by simp
    qed
    then show "?v = Max ((\<lambda>b. 1 + the (resolve ws s b)) ` set (successors s w))"
      using chain_length_Max[OF w] ne su by simp
  qed
  have 5: "\<exists>p. chain_path s (w # p) \<and> int (length (w # p)) = ?v"
    using chain_path_ex[OF inv w] .
  have 6: "\<forall>p. chain_path s (w # p) \<longrightarrow> int (length (w # p)) \<le> ?v"
    using chain_path_le[OF inv] by blast
  have 7: "\<forall>c \<in> set printable. sorted_str (new_sorted (heap s ! w) c)
            \<and> mset (new_sorted (heap s ! w) c) = add_mset (char_of c) (mset (original (heap s ! w)))"
    using sorted_new_sorted[OF inv w] by blast
  from 1 2 3 4 5 6 7 show ?thesis by blast
qed

theorem longest_chain_longest_path_witness:
  "run_state [''sail'', ''nails'', ''aliens''] (load [''sail'', ''nails'', ''aliens''])
   \<and> (0 :: nat) < length (heap (load [''sail'', ''nails'', ''aliens'']))
   \<and> resolve [''sail'', ''nails'', ''aliens''] (load [''sail'', ''nails'', ''aliens'']) 2 = Some 1
   \<and> resolve [''sail'', ''nails'', ''aliens''] (load [''sail'', ''nails'', ''aliens'']) 1 = Some 2
   \<and> resolve [''sail'', ''nails'', ''aliens''] (load [''sail'', ''nails'', ''aliens'']) 0 = Some 3"
proof -
  let ?ws = "[''sail'', ''nails'', ''aliens'']"
  have r: "run_state ?ws (load ?ws)" by (rule run_state.loaded)
  have l: "length (heap (load ?ws)) = 3" by (simp add: length_heap_load)
  have s0: "successors (load ?ws) 0 = [1]" using successors_load[of 0 ?ws] succs_sail0 by simp
  have s1: "successors (load ?ws) 1 = [2]" using successors_load[of 1 ?ws] succs_sail1 by simp
  have s2: "successors (load ?ws) 2 = []" using successors_load[of 2 ?ws] succs_sail2 by simp
  have r2: "resolve ?ws (load ?ws) 2 = Some 1"
    using longest_chain_longest_path[OF r, of 2] l s2 by auto
  have r1: "resolve ?ws (load ?ws) 1 = Some 2"
    using longest_chain_longest_path[OF r, of 1] l s1 r2 by auto
  have r0: "resolve ?ws (load ?ws) 0 = Some 3"
    using longest_chain_longest_path[OF r, of 0] l s0 r1 by auto
  show ?thesis using r l r0 r1 r2 by simp
qed

text \<open>
  C7. For every entry \<open>w\<close> of the dictionary, the value of \<^verbatim>\<open>longest_chain\<close> is at least 1
  and at most the length of the longest word of the dictionary minus the length of \<open>w\<close>,
  plus 1.
\<close>

theorem resolve_bounds:
  assumes "run_state ws s" "w < length (heap s)"
  shows "\<exists>v. resolve ws s w = Some v \<and> 1 \<le> v
      \<and> v \<le> int (longest_word ws) - int (length_w (heap s ! w)) + 1"
proof -
  have inv: "run_inv ws s" using assms(1) by (rule run_state_inv)
  have w: "w < length ws" using assms(2) invD(3)[OF inv] by simp
  have "length_w (heap s ! w) = length (ws ! w)" using inv_heap(4)[OF invD(1)[OF inv] w] .
  then show ?thesis
    using resolve_eq[OF assms(1) w] chain_length_ge1[OF w] chain_length_upper[OF w] by simp
qed

lemma longest_word_cat: "longest_word [''act'', ''cat'', ''ca''] = 3"
  by code_simp

theorem resolve_bounds_witness:
  "run_state [''act'', ''cat'', ''ca''] (load [''act'', ''cat'', ''ca''])
   \<and> (1 :: nat) < length (heap (load [''act'', ''cat'', ''ca'']))
   \<and> resolve [''act'', ''cat'', ''ca''] (load [''act'', ''cat'', ''ca'']) 1 = Some 1"
proof -
  let ?ws = "[''act'', ''cat'', ''ca'']"
  have r: "run_state ?ws (load ?ws)" by (rule run_state.loaded)
  have l: "(1 :: nat) < length (heap (load ?ws))" by (simp add: length_heap_load)
  have "length_w (heap (load ?ws) ! 1) = 3" by (simp add: heap_load)
  then show ?thesis using resolve_bounds[OF r l] r l longest_word_cat by auto
qed

text \<open>
  C5. An entry found from another one is exactly one character longer, so the transition
  relation is acyclic; \<^verbatim>\<open>longest_chain\<close> returns on every entry of every dictionary, as
  soon as the fuel exceeds the number of characters by which the longest word is longer
  than the entry: the top activation and at most as many nested ones as the longest word
  has characters.
\<close>

theorem longest_chain_terminates:
  assumes "run_state ws s" "w < length (heap s)"
  shows "(\<forall>b. (w, b) \<in> transition s \<longrightarrow> length_w (heap s ! b) = length_w (heap s ! w) + 1)
     \<and> acyclic (transition s)
     \<and> (w, w) \<notin> (transition s)\<^sup>+
     \<and> longest_word ws - length_w (heap s ! w) \<le> longest_word ws
     \<and> (\<forall>n. longest_word ws - length_w (heap s ! w) < n \<longrightarrow> (\<exists>r. longest_chain n s w = Some r))
     \<and> (\<exists>r. longest_chain (Suc (longest_word ws)) s w = Some r)"
proof -
  have inv: "run_inv ws s" using assms(1) by (rule run_state_inv)
  have w: "w < length ws" using assms(2) invD(3)[OF inv] by simp
  have lw: "length_w (heap s ! w) = length (ws ! w)" using inv_heap(4)[OF invD(1)[OF inv] w] .
  have 1: "\<forall>b. (w, b) \<in> transition s \<longrightarrow> length_w (heap s ! b) = length_w (heap s ! w) + 1"
  proof (intro allI impI)
    fix b assume "(w, b) \<in> transition s"
    then have "b < length ws" "length (ws ! b) = Suc (length (ws ! w))"
      using transition_length[OF inv] by auto
    then show "length_w (heap s ! b) = length_w (heap s ! w) + 1"
      using lw inv_heap(4)[OF invD(1)[OF inv], of b] by simp
  qed
  have 2: "acyclic (transition s)" using acyclic_transition[OF inv] .
  then have 3: "(w, w) \<notin> (transition s)\<^sup>+" by (simp add: acyclic_def)
  have 4: "\<forall>n. longest_word ws - length_w (heap s ! w) < n \<longrightarrow> (\<exists>r. longest_chain n s w = Some r)"
  proof (intro allI impI)
    fix n assume "longest_word ws - length_w (heap s ! w) < n"
    then have "longest_word ws - length (ws ! w) < n" using lw by simp
    from lc_correct[OF inv w this] show "\<exists>r. longest_chain n s w = Some r" by blast
  qed
  have "longest_word ws - length_w (heap s ! w) < Suc (longest_word ws)" by simp
  with 4 have 5: "\<exists>r. longest_chain (Suc (longest_word ws)) s w = Some r" by blast
  have 6: "longest_word ws - length_w (heap s ! w) \<le> longest_word ws" by simp
  from 1 2 3 4 5 6 show ?thesis by blast
qed

theorem longest_chain_terminates_witness:
  "run_state [''act'', ''cat'', ''ca''] (load [''act'', ''cat'', ''ca''])
   \<and> (2 :: nat) < length (heap (load [''act'', ''cat'', ''ca'']))
   \<and> acyclic (transition (load [''act'', ''cat'', ''ca'']))
   \<and> (\<exists>r. longest_chain 2 (load [''act'', ''cat'', ''ca'']) 2 = Some r)"
proof -
  let ?ws = "[''act'', ''cat'', ''ca'']"
  have r: "run_state ?ws (load ?ws)" by (rule run_state.loaded)
  have l: "(2 :: nat) < length (heap (load ?ws))" by (simp add: length_heap_load)
  have "length_w (heap (load ?ws) ! 2) = 2" by (simp add: heap_load)
  then show ?thesis using longest_chain_terminates[OF r l] r l longest_word_cat by auto
qed

text \<open>
  C6. When a call of \<^verbatim>\<open>longest_chain\<close> on an entry has returned \<open>v\<close>, the memo field of
  the entry holds \<open>v\<close>, which is not the mark -1 of an empty field; every later call on the
  entry returns \<open>v\<close> again and leaves the state as it is, with fuel for one activation
  only, and whatever the hash table holds: it returns the field and looks nothing up.
\<close>

theorem longest_chain_idempotent:
  assumes "run_state ws s" "w < length (heap s)"
  shows "(\<exists>s1 v. longest_chain (Suc (longest_word ws)) s w = Some (s1, v))
     \<and> (\<forall>n s1 v. longest_chain n s w = Some (s1, v) \<longrightarrow>
           dp (heap s1 ! w) = v \<and> v \<noteq> - 1
           \<and> (\<forall>k. longest_chain (Suc k) s1 w = Some (s1, v))
           \<and> (\<forall>k T. longest_chain (Suc k) (s1\<lparr>hash_table := T\<rparr>) w = Some (s1\<lparr>hash_table := T\<rparr>, v)))"
proof -
  have inv: "run_inv ws s" using assms(1) by (rule run_state_inv)
  have w: "w < length ws" using assms(2) invD(3)[OF inv] by simp
  have 1: "\<exists>s1 v. longest_chain (Suc (longest_word ws)) s w = Some (s1, v)"
    using lc_correct[OF inv w le_longest_word[OF w]] by blast
  have 2: "\<forall>n s1 v. longest_chain n s w = Some (s1, v) \<longrightarrow>
           dp (heap s1 ! w) = v \<and> v \<noteq> - 1
           \<and> (\<forall>k. longest_chain (Suc k) s1 w = Some (s1, v))
           \<and> (\<forall>k T. longest_chain (Suc k) (s1\<lparr>hash_table := T\<rparr>) w = Some (s1\<lparr>hash_table := T\<rparr>, v))"
  proof (intro allI impI)
    fix n s1 v assume l: "longest_chain n s w = Some (s1, v)"
    have d: "dp (heap s1 ! w) = v" using lc_sound(4)[OF inv w l] .
    have "v = chain_length ws w" using lc_sound(1)[OF inv w l] .
    then have v: "v \<noteq> - 1" using chain_length_ge1[OF w] by simp
    show "dp (heap s1 ! w) = v \<and> v \<noteq> - 1
           \<and> (\<forall>k. longest_chain (Suc k) s1 w = Some (s1, v))
           \<and> (\<forall>k T. longest_chain (Suc k) (s1\<lparr>hash_table := T\<rparr>) w = Some (s1\<lparr>hash_table := T\<rparr>, v))"
      using d v by simp
  qed
  from 1 2 show ?thesis by blast
qed

theorem longest_chain_idempotent_witness:
  "run_state [''cat''] (load [''cat''])
   \<and> (0 :: nat) < length (heap (load [''cat'']))
   \<and> (\<exists>s1 v. longest_chain 4 (load [''cat'']) 0 = Some (s1, v) \<and> dp (heap s1 ! 0) = v
         \<and> longest_chain 1 s1 0 = Some (s1, v))"
proof -
  let ?ws = "[''cat'']"
  have r: "run_state ?ws (load ?ws)" by (rule run_state.loaded)
  have l: "(0 :: nat) < length (heap (load ?ws))" by (simp add: length_heap_load)
  have lw: "longest_word ?ws = 3" by code_simp
  from longest_chain_idempotent[OF r l] lw
  obtain s1 v where 1: "longest_chain 4 (load ?ws) 0 = Some (s1, v)" by auto
  from longest_chain_idempotent[OF r l] 1
  have "dp (heap s1 ! 0) = v \<and> longest_chain (Suc 0) s1 0 = Some (s1, v)" by blast
  then show ?thesis using r l 1 by auto
qed

text \<open>
  C4. In every state of a run on the words \<open>ws\<close> (inserted in this order, the entry at
  address \<open>j\<close> holding the word \<open>ws ! j\<close>), the lookup of a canonical form returns the
  entry inserted last among those with this canonical form, and nothing when there is
  none. So an entry that has a later entry with the same canonical form is returned by no
  lookup, whatever the key, and this stays so when more words are inserted; the
  entries that the loops of \<^verbatim>\<open>longest_chain\<close> and \<^verbatim>\<open>print_chains\<close> reach are the last ones
  of their canonical forms.
\<close>

theorem find_word_most_recent:
  assumes "run_state ws s"
  shows "(find_word s key = Some j \<longleftrightarrow>
            j < length ws \<and> sort_string (ws ! j) = key
            \<and> (\<forall>i < length ws. j < i \<longrightarrow> sort_string (ws ! i) \<noteq> key))
     \<and> (\<forall>i j. i < j \<and> j < length ws \<and> sort_string (ws ! i) = sort_string (ws ! j) \<longrightarrow>
            (\<forall>k. find_word s k \<noteq> Some i)
            \<and> (\<forall>more k. find_word (fold (\<lambda>w s. insert_word s w) more (load ws)) k \<noteq> Some i))
     \<and> (\<forall>j < length ws. original (heap s ! j) = ws ! j \<and> sorted_w (heap s ! j) = sort_string (ws ! j))
     \<and> find_word (insert_word (load ws) x) (sort_string x) = Some (length ws)
     \<and> (\<forall>a b. b \<in> set (successors s a) \<longrightarrow>
            b < length ws \<and> (\<forall>i < length ws. b < i \<longrightarrow> sort_string (ws ! i) \<noteq> sort_string (ws ! b)))"
proof -
  have inv: "run_inv ws s" using assms by (rule run_state_inv)
  have f: "find_word s k = lookup ws k" for k using find_word_inv[OF invD(1)[OF inv]] .
  have 1: "find_word s key = Some j \<longleftrightarrow>
            j < length ws \<and> sort_string (ws ! j) = key
            \<and> (\<forall>i < length ws. j < i \<longrightarrow> sort_string (ws ! i) \<noteq> key)"
    unfolding f by (rule lookup_Some_iff)
  have shadow: "lookup vs k \<noteq> Some i"
    if "i < j" "j < length vs" "sort_string (vs ! i) = sort_string (vs ! j)" for vs k i j
  proof
    assume "lookup vs k = Some i"
    then have "sort_string (vs ! i) = k" "\<forall>x < length vs. i < x \<longrightarrow> sort_string (vs ! x) \<noteq> k"
      by (simp_all add: lookup_Some_iff)
    then show False using that by auto
  qed
  have 2: "\<forall>i j. i < j \<and> j < length ws \<and> sort_string (ws ! i) = sort_string (ws ! j) \<longrightarrow>
            (\<forall>k. find_word s k \<noteq> Some i)
            \<and> (\<forall>more k. find_word (fold (\<lambda>w s. insert_word s w) more (load ws)) k \<noteq> Some i)"
  proof (intro allI impI conjI)
    fix i j k assume a: "i < j \<and> j < length ws \<and> sort_string (ws ! i) = sort_string (ws ! j)"
    show "find_word s k \<noteq> Some i" unfolding f using shadow[of i j ws k] a by simp
  next
    fix i j more k assume a: "i < j \<and> j < length ws \<and> sort_string (ws ! i) = sort_string (ws ! j)"
    have e: "fold (\<lambda>w s. insert_word s w) more (load ws) = load (ws @ more)" by (simp add: load_def)
    have "lookup (ws @ more) k \<noteq> Some i"
      using shadow[of i j "ws @ more" k] a by (simp add: nth_append)
    then show "find_word (fold (\<lambda>w s. insert_word s w) more (load ws)) k \<noteq> Some i"
      unfolding e by (simp add: find_word_load)
  qed
  have 3: "\<forall>j < length ws. original (heap s ! j) = ws ! j \<and> sorted_w (heap s ! j) = sort_string (ws ! j)"
    using inv_heap(2,3)[OF invD(1)[OF inv]] by simp
  have "find_word (insert_word (load ws) x) (sort_string x) = lookup (ws @ [x]) (sort_string x)"
    using find_word_load[of "ws @ [x]"] by (simp add: load_snoc)
  also have "\<dots> = Some (length ws)"
    by (simp add: lookup_Some_iff)
  finally have 4: "find_word (insert_word (load ws) x) (sort_string x) = Some (length ws)" .
  have 5: "\<forall>a b. b \<in> set (successors s a) \<longrightarrow>
            b < length ws \<and> (\<forall>i < length ws. b < i \<longrightarrow> sort_string (ws ! i) \<noteq> sort_string (ws ! b))"
  proof (intro allI impI)
    fix a b assume "b \<in> set (successors s a)"
    then obtain k where "find_word s k = Some b" by (force simp: successors_def map_filter_def)
    then have "lookup ws k = Some b" by (simp add: f)
    then show "b < length ws \<and> (\<forall>i < length ws. b < i \<longrightarrow> sort_string (ws ! i) \<noteq> sort_string (ws ! b))"
      by (simp add: lookup_Some_iff)
  qed
  from 1 2 3 4 5 show ?thesis by blast
qed

lemma sort_bca: "sort_string ''bca'' = ''abc''"
  by code_simp

lemma sort_abc: "sort_string ''abc'' = ''abc''"
  by code_simp

theorem find_word_most_recent_witness:
  "run_state [''abc'', ''bca''] (load [''abc'', ''bca''])
   \<and> find_word (load [''abc'', ''bca'']) ''abc'' = Some 1
   \<and> original (heap (load [''abc'', ''bca'']) ! 1) = ''bca''
   \<and> find_word (load [''abc'', ''bca'']) ''abc'' \<noteq> Some 0"
proof -
  let ?ws = "[''abc'', ''bca'']"
  have r: "run_state ?ws (load ?ws)" by (rule run_state.loaded)
  have "find_word (load ?ws) ''abc'' = Some 1"
    using find_word_most_recent[OF r, of "''abc''" 1] sort_bca by simp
  moreover have "original (heap (load ?ws) ! 1) = ''bca''"
    using find_word_most_recent[OF r, of "''abc''" 1] by simp
  ultimately show ?thesis using r by simp
qed

section \<open>\<^verbatim>\<open>print_chains\<close>: state, output and path buffer\<close>

lemma print_chains_state:
  "print_chains s w m ch d out = Inr (s', ch', out') \<Longrightarrow> s' = s"
  and pc_loop_state:
  "pc_loop s w m ch d cs out = Inr (s', ch', out') \<Longrightarrow> s' = s"
proof (induction s w m ch d out and s w m ch d cs out arbitrary: s' ch' out' and s' ch' out'
        rule: print_chains_pc_loop.induct)
  case (1 s w max_len chain depth out)
  show ?case
  proof (cases "int depth + 1 = max_len")
    case True
    then show ?thesis using "1.prems" by (auto simp: Let_def split: if_splits)
  next
    case False
    have d: "\<not> 256 \<le> depth" using "1.prems" by (auto split: if_splits)
    have "pc_loop s w max_len (chain[depth := original (heap s ! w)]) depth printable out = Inr (s', ch', out')"
      using "1.prems" d False by (simp add: Let_def)
    from "1.IH"[OF d refl False this] show ?thesis .
  qed
next
  case (2 s w max_len chain depth out)
  then show ?case by simp
next
  case (3 s w max_len chain depth c cs out)
  show ?case
  proof (cases "find_word s (new_sorted (heap s ! w) c)")
    case None
    then show ?thesis using "3.IH"(1)[OF None] "3.prems" by simp
  next
    case (Some b)
    show ?thesis
    proof (cases "dp (heap s ! b) = max_len - int depth - 1")
      case False
      then show ?thesis using "3.IH"(4)[OF Some False] "3.prems" Some by simp
    next
      case True
      then obtain s1 ch1 out1 where p: "print_chains s b max_len chain (depth + 1) out = Inr (s1, ch1, out1)"
        and l: "pc_loop s1 w max_len ch1 depth cs out1 = Inr (s', ch', out')"
        using "3.prems" Some by (auto split: sum.splits)
      have "s1 = s" using "3.IH"(2)[OF Some True p] .
      moreover have "s' = s1" using "3.IH"(3)[OF Some True p refl refl l] .
      ultimately show ?thesis by simp
    qed
  qed
qed

lemma words_of_Cons: "words_of s (a # p) = original (heap s ! a) # words_of s p"
  by (simp add: words_of_def)

lemma print_chains_out:
  "length ch = 256 \<Longrightarrow> int d < m \<Longrightarrow> print_chains s w m ch d out = Inr (s', ch', out') \<Longrightarrow>
     length ch' = 256 \<and> take d ch' = take d ch
     \<and> out' = out @ map (\<lambda>p. take d ch @ words_of s p) (paths s (nat (m - int d - 1)) w)"
  and pc_loop_out:
  "length ch = 256 \<Longrightarrow> int d + 1 < m \<Longrightarrow> pc_loop s w m ch d cs out = Inr (s', ch', out') \<Longrightarrow>
     length ch' = 256 \<and> take (Suc d) ch' = take (Suc d) ch
     \<and> out' = out @ concat (map (\<lambda>b. map (\<lambda>p. take (Suc d) ch @ words_of s p) (paths s (nat (m - int d - 2)) b))
          (filter (\<lambda>b. dp (heap s ! b) = m - int d - 1)
             (List.map_filter (\<lambda>c. find_word s (new_sorted (heap s ! w) c)) cs)))"
proof (induction s w m ch d out and s w m ch d cs out arbitrary: s' ch' out' and s' ch' out'
        rule: print_chains_pc_loop.induct)
  case (1 s w max_len chain depth out)
  have d: "\<not> 256 \<le> depth" using "1.prems"(3) by (auto split: if_splits)
  let ?ch = "chain[depth := original (heap s ! w)]"
  have tk: "take (Suc depth) ?ch = take depth chain @ [original (heap s ! w)]"
    using d "1.prems"(1) by (simp add: take_Suc_conv_app_nth)
  show ?case
  proof (cases "int depth + 1 = max_len")
    case True
    then have "ch' = ?ch" "out' = out @ [take (Suc depth) ?ch]"
      using "1.prems"(3) d by (auto simp: Let_def)
    moreover have "nat (max_len - int depth - 1) = 0" using True by simp
    ultimately show ?thesis using tk "1.prems"(1) by (simp add: words_of_def)
  next
    case False
    then have lt: "int depth + 1 < max_len" using "1.prems"(2) by simp
    have l: "pc_loop s w max_len ?ch depth printable out = Inr (s', ch', out')"
      using "1.prems"(3) d False by (simp add: Let_def)
    have len: "length ?ch = 256" using "1.prems"(1) by simp
    from "1.IH"[OF d refl False len lt l]
    have r: "length ch' = 256" "take (Suc depth) ch' = take (Suc depth) ?ch"
      "out' = out @ concat (map (\<lambda>b. map (\<lambda>p. take (Suc depth) ?ch @ words_of s p) (paths s (nat (max_len - int depth - 2)) b))
          (filter (\<lambda>b. dp (heap s ! b) = max_len - int depth - 1)
             (List.map_filter (\<lambda>c. find_word s (new_sorted (heap s ! w) c)) printable)))"
      by auto
    define k where "k = nat (max_len - int depth - 2)"
    have k: "nat (max_len - int depth - 1) = Suc k" "nat (max_len - int depth - 2) = k"
      "max_len - int depth - 1 = int (Suc k)"
      using lt by (simp_all add: k_def)
    have "take depth ch' = take depth chain"
    proof -
      have "take depth ch' = take depth (take (Suc depth) ch')" by (simp add: min_def)
      also have "\<dots> = take depth (take (Suc depth) ?ch)" using r(2) by simp
      also have "\<dots> = take depth chain" by (simp add: min_def)
      finally show ?thesis .
    qed
    moreover have pk: "paths s (nat (max_len - int depth - 1)) w =
        concat (map (\<lambda>b. map ((#) w) (paths s k b))
          (filter (\<lambda>b. dp (heap s ! b) = max_len - int depth - 1) (successors s w)))"
      unfolding k(3) by (simp only: nat_int paths.simps)
    have "out' = out @ map (\<lambda>p. take depth chain @ words_of s p) (paths s (nat (max_len - int depth - 1)) w)"
      unfolding r(3) pk tk k(2)
      by (simp add: successors_def map_concat comp_def words_of_Cons)
    ultimately show ?thesis using r(1) by simp
  qed
next
  case (2 s w max_len chain depth out)
  then show ?case by (simp add: map_filter_simps)
next
  case (3 s w max_len chain depth c cs out)
  show ?case
  proof (cases "find_word s (new_sorted (heap s ! w) c)")
    case None
    have "pc_loop s w max_len chain depth cs out = Inr (s', ch', out')" using "3.prems"(3) None by simp
    from "3.IH"(1)[OF None "3.prems"(1,2) this] show ?thesis using None by (simp add: map_filter_simps)
  next
    case (Some b)
    show ?thesis
    proof (cases "dp (heap s ! b) = max_len - int depth - 1")
      case False
      have "pc_loop s w max_len chain depth cs out = Inr (s', ch', out')" using "3.prems"(3) Some False by simp
      from "3.IH"(4)[OF Some False "3.prems"(1,2) this] show ?thesis using Some False by (simp add: map_filter_simps)
    next
      case True
      then obtain s1 ch1 out1 where p: "print_chains s b max_len chain (depth + 1) out = Inr (s1, ch1, out1)"
        and l: "pc_loop s1 w max_len ch1 depth cs out1 = Inr (s', ch', out')"
        using "3.prems"(3) Some by (auto split: sum.splits)
      have s1: "s1 = s" using print_chains_state[OF p] .
      have lt: "int (depth + 1) < max_len" using "3.prems"(2) by simp
      from "3.IH"(2)[OF Some True "3.prems"(1) lt p]
      have r1: "length ch1 = 256" "take (Suc depth) ch1 = take (Suc depth) chain"
        "out1 = out @ map (\<lambda>p. take (Suc depth) chain @ words_of s p) (paths s (nat (max_len - int depth - 2)) b)"
        by (simp_all add: algebra_simps)
      from "3.IH"(3)[OF Some True p refl refl r1(1) "3.prems"(2) l]
      have r2: "length ch' = 256" "take (Suc depth) ch' = take (Suc depth) ch1"
        "out' = out1 @ concat (map (\<lambda>b. map (\<lambda>p. take (Suc depth) ch1 @ words_of s1 p) (paths s1 (nat (max_len - int depth - 2)) b))
          (filter (\<lambda>b. dp (heap s1 ! b) = max_len - int depth - 1)
             (List.map_filter (\<lambda>c. find_word s1 (new_sorted (heap s1 ! w) c)) cs)))"
        by auto
      show ?thesis using r1 r2 s1 Some True by (simp add: map_filter_simps)
    qed
  qed
qed

lemma print_chains_no_overflow:
  "m \<le> 256 \<Longrightarrow> int d < m \<Longrightarrow> \<exists>r. print_chains s w m ch d out = Inr r"
  and pc_loop_no_overflow:
  "m \<le> 256 \<Longrightarrow> int d + 1 < m \<Longrightarrow> \<exists>r. pc_loop s w m ch d cs out = Inr r"
proof (induction s w m ch d out and s w m ch d cs out rule: print_chains_pc_loop.induct)
  case (1 s w max_len chain depth out)
  have d: "\<not> 256 \<le> depth" using "1.prems" by simp
  show ?case
  proof (cases "int depth + 1 = max_len")
    case True
    then show ?thesis using d by (simp add: Let_def)
  next
    case False
    then have "int depth + 1 < max_len" using "1.prems"(2) by simp
    from "1.IH"[OF d refl False "1.prems"(1) this] show ?thesis using d False by (simp add: Let_def)
  qed
next
  case (2 s w max_len chain depth out)
  then show ?case by simp
next
  case (3 s w max_len chain depth c cs out)
  show ?case
  proof (cases "find_word s (new_sorted (heap s ! w) c)")
    case None
    then show ?thesis using "3.IH"(1)[OF None "3.prems"] by simp
  next
    case (Some b)
    show ?thesis
    proof (cases "dp (heap s ! b) = max_len - int depth - 1")
      case False
      then show ?thesis using "3.IH"(4)[OF Some False "3.prems"] Some by simp
    next
      case True
      have "int (depth + 1) < max_len" using "3.prems"(2) by simp
      from "3.IH"(2)[OF Some True "3.prems"(1) this]
      obtain s1 ch1 out1 where p: "print_chains s b max_len chain (depth + 1) out = Inr (s1, ch1, out1)"
        by (metis prod_cases3)
      from "3.IH"(3)[OF Some True p refl refl "3.prems"]
      show ?thesis using Some True p by simp
    qed
  qed
qed


lemma print_chains_silent:
  "m \<le> int d \<Longrightarrow> print_chains s w m ch d out = Inr (s', ch', out') \<Longrightarrow> out' = out"
  and pc_loop_silent:
  "m \<le> int d \<Longrightarrow> pc_loop s w m ch d cs out = Inr (s', ch', out') \<Longrightarrow> out' = out"
proof (induction s w m ch d out and s w m ch d cs out arbitrary: s' ch' out' and s' ch' out'
        rule: print_chains_pc_loop.induct)
  case (1 s w max_len chain depth out)
  have d: "\<not> 256 \<le> depth" using "1.prems"(2) by (auto split: if_splits)
  have ne: "int depth + 1 \<noteq> max_len" using "1.prems"(1) by simp
  have "pc_loop s w max_len (chain[depth := original (heap s ! w)]) depth printable out = Inr (s', ch', out')"
    using "1.prems"(2) d ne by (simp add: Let_def)
  from "1.IH"[OF d refl ne "1.prems"(1) this] show ?case .
next
  case (2 s w max_len chain depth out)
  then show ?case by simp
next
  case (3 s w max_len chain depth c cs out)
  show ?case
  proof (cases "find_word s (new_sorted (heap s ! w) c)")
    case None
    then show ?thesis using "3.IH"(1)[OF None "3.prems"(1)] "3.prems"(2) by simp
  next
    case (Some b)
    show ?thesis
    proof (cases "dp (heap s ! b) = max_len - int depth - 1")
      case False
      then show ?thesis using "3.IH"(4)[OF Some False "3.prems"(1)] "3.prems"(2) Some by simp
    next
      case True
      then obtain s1 ch1 out1 where p: "print_chains s b max_len chain (depth + 1) out = Inr (s1, ch1, out1)"
        and l: "pc_loop s1 w max_len ch1 depth cs out1 = Inr (s', ch', out')"
        using "3.prems"(2) Some by (auto split: sum.splits)
      have "max_len \<le> int (depth + 1)" using "3.prems"(1) by simp
      from "3.IH"(2)[OF Some True this p] have "out1 = out" .
      moreover from "3.IH"(3)[OF Some True p refl refl "3.prems"(1) l] have "out' = out1" .
      ultimately show ?thesis by simp
    qed
  qed
qed




lemma memo_okD:
  assumes "run_inv ws s" "a < length ws" "dp (heap s ! a) \<noteq> - 1"
  shows "dp (heap s ! a) = chain_length ws a"
    and "b \<in> set (succs ws a) \<Longrightarrow> dp (heap s ! b) \<noteq> - 1"
  using invD(2)[OF assms(1)] assms(2,3) by (auto simp: memo_ok_def)


lemma paths_sound:
  assumes "run_inv ws s"
  shows "a < length ws \<Longrightarrow> p \<in> set (paths s k a) \<Longrightarrow>
     chain_path s p \<and> hd p = a \<and> length p = Suc k \<and> (0 < k \<longrightarrow> dp (heap s ! last p) = 1)"
proof (induction k arbitrary: a p)
  case 0
  then show ?case using invD(3)[OF assms] by simp
next
  case (Suc k)
  from Suc.prems(2) obtain b q where b: "b \<in> set (successors s a)" "dp (heap s ! b) = int (Suc k)"
    and q: "q \<in> set (paths s k b)" and p: "p = a # q"
    by auto
  have "b \<in> set (succs ws a)" using b(1) successors_inv[OF invD(1)[OF assms] Suc.prems(1)] by simp
  then have bl: "b < length ws" using succs_length by blast
  from Suc.IH[OF bl q]
  have ih: "chain_path s q" "hd q = b" "length q = Suc k" "0 < k \<longrightarrow> dp (heap s ! last q) = 1" by auto
  obtain q' where q': "q = b # q'" using ih(2,3) by (cases q) auto
  have "chain_path s p" using ih(1) b(1) Suc.prems(1) invD(3)[OF assms] by (simp add: p q')
  moreover have "dp (heap s ! last p) = 1"
  proof (cases k)
    case 0
    then have "q = [b]" using ih(3) q' by simp
    then show ?thesis using b(2) 0 p by simp
  next
    case (Suc k')
    then show ?thesis using ih(4) p q' by simp
  qed
  ultimately show ?case using p ih(3) by simp
qed

lemma paths_complete:
  assumes "run_inv ws s"
  shows "a < length ws \<Longrightarrow> dp (heap s ! a) = int (Suc k) \<Longrightarrow> chain_path s p \<Longrightarrow> hd p = a
     \<Longrightarrow> length p = Suc k \<Longrightarrow> p \<in> set (paths s k a)"
proof (induction k arbitrary: a p)
  case 0
  then show ?case by (cases p) auto
next
  case (Suc k)
  obtain b q where p: "p = a # b # q" using Suc.prems(4,5) by (cases p; cases "tl p") auto
  have b: "b \<in> set (successors s a)" and cq: "chain_path s (b # q)" using Suc.prems(3) p by auto
  have bs: "b \<in> set (succs ws a)" using b successors_inv[OF invD(1)[OF assms] Suc.prems(1)] by simp
  then have bl: "b < length ws" using succs_length by blast
  have dpa: "dp (heap s ! a) \<noteq> - 1" using Suc.prems(2) by simp
  have ca: "chain_length ws a = int (Suc (Suc k))" using memo_okD(1)[OF assms Suc.prems(1) dpa] Suc.prems(2) by simp
  have "int (length (b # q)) \<le> chain_length ws b" using chain_path_le[OF assms cq] .
  moreover have "1 + chain_length ws b \<le> chain_length ws a" using step_chain_length[OF Suc.prems(1) bs] .
  ultimately have cb: "chain_length ws b = int (Suc k)" using ca Suc.prems(5) p by simp
  have "dp (heap s ! b) \<noteq> - 1" using memo_okD(2)[OF assms Suc.prems(1) dpa bs] .
  then have dpb: "dp (heap s ! b) = int (Suc k)" using memo_okD(1)[OF assms bl] cb by simp
  have "b # q \<in> set (paths s k b)"
    using Suc.IH[OF bl dpb cq] Suc.prems(5) p by simp
  then show ?case using b dpb p by auto
qed

lemma longest_word_read:
  assumes "read_by_main ws"
  shows "longest_word ws < 256"
proof -
  have "\<And>m. m < 256 \<Longrightarrow> list_all (\<lambda>w. length w < 256) ws \<Longrightarrow> fold max (map length ws) m < 256"
  proof (induction ws)
    case Nil
    then show ?case by simp
  next
    case (Cons a ws)
    then show ?case by simp
  qed
  then show ?thesis using assms by (simp add: longest_word_def read_by_main_def MAX_WORD_def)
qed

lemma chain_length_read:
  assumes "read_by_main ws" "a < length ws"
  shows "chain_length ws a \<le> 256"
  using chain_length_upper[OF assms(2)] longest_word_read[OF assms(1)] by simp

lemma chain_path_nth:
  "chain_path s p \<Longrightarrow> (\<forall>a \<in> set p. a < length (heap s))
     \<and> (\<forall>i. Suc i < length p \<longrightarrow> p ! Suc i \<in> set (successors s (p ! i)))"
proof (induction s p rule: chain_path.induct)
  case (1 s)
  then show ?case by simp
next
  case (2 s a)
  then show ?case by simp
next
  case (3 s a b p)
  then have ih: "\<forall>a \<in> set (b # p). a < length (heap s)"
    "\<forall>i. Suc i < length (b # p) \<longrightarrow> (b # p) ! Suc i \<in> set (successors s ((b # p) ! i))"
    by auto
  have "\<forall>i. Suc i < length (a # b # p) \<longrightarrow> (a # b # p) ! Suc i \<in> set (successors s ((a # b # p) ! i))"
  proof (intro allI impI)
    fix i assume i: "Suc i < length (a # b # p)"
    show "(a # b # p) ! Suc i \<in> set (successors s ((a # b # p) ! i))"
    proof (cases i)
      case 0
      then show ?thesis using "3.prems" by simp
    next
      case (Suc j)
      then show ?thesis using ih(2) i by simp
    qed
  qed
  then show ?case using ih(1) "3.prems" by simp
qed

lemma successor_words:
  assumes "run_inv ws s" "a < length ws" "b \<in> set (successors s a)"
  shows "\<exists>x \<in> set printable. sort_string (original (heap s ! b)) = insert_char x (sort_string (original (heap s ! a)))
           \<and> mset (original (heap s ! b)) = add_mset (char_of x) (mset (original (heap s ! a)))"
proof -
  have "b \<in> set (succs ws a)" using assms(3) successors_inv[OF invD(1)[OF assms(1)] assms(2)] by simp
  then obtain x where x: "x \<in> set printable" "lookup ws (insert_char x (sort_string (ws ! a))) = Some b"
    by (auto simp: mem_succs)
  have b: "b < length ws" "sort_string (ws ! b) = insert_char x (sort_string (ws ! a))"
    using lookup_SomeD[OF x(2)] by auto
  have "mset (ws ! b) = mset (sort_string (ws ! b))" by (simp add: mset_sort_string)
  also have "\<dots> = add_mset (char_of x) (mset (ws ! a))"
    unfolding b(2) by (simp add: mset_insert_char mset_sort_string)
  finally show ?thesis
    using x(1) b inv_heap(2)[OF invD(1)[OF assms(1)]] assms(2) by auto
qed

section \<open>The claims about \<^verbatim>\<open>print_chains\<close>\<close>

lemma resolved_state:
  assumes "a < length ws" "longest_word ws < n"
  shows "\<exists>s. longest_chain n (load ws) a = Some (s, chain_length ws a) \<and> run_state ws s
           \<and> dp (heap s ! a) = chain_length ws a \<and> length (heap s) = length ws"
proof -
  have "longest_word ws - length (ws ! a) < n" using assms(2) by simp
  from lc_correct[OF inv_load assms(1) this]
  obtain s where s: "longest_chain n (load ws) a = Some (s, chain_length ws a)" "run_inv ws s"
    "dp (heap s ! a) = chain_length ws a" by blast
  have "run_state ws s"
    using run_state.resolved[OF run_state.loaded _ s(1)] assms(1) by (simp add: length_heap_load)
  then show ?thesis using s invD(3)[OF s(2)] by blast
qed

lemma chain_path_words:
  assumes "run_inv ws s"
  shows "p \<noteq> [] \<Longrightarrow> \<forall>a \<in> set p. a < length ws \<Longrightarrow>
     \<forall>i. Suc i < length p \<longrightarrow>
        (\<exists>x \<in> set printable. sort_string (ws ! (p ! Suc i)) = insert_char x (sort_string (ws ! (p ! i))))
        \<and> (\<forall>j < length ws. p ! Suc i < j \<longrightarrow> sort_string (ws ! j) \<noteq> sort_string (ws ! (p ! Suc i)))
     \<Longrightarrow> chain_path s p"
proof (induction p)
  case Nil
  then show ?case by simp
next
  case (Cons a p)
  have a: "a < length ws" using Cons.prems(2) by simp
  have ha: "a < length (heap s)" using a invD(3)[OF assms] by simp
  show ?case
  proof (cases p)
    case Nil
    then show ?thesis using ha by simp
  next
    case (Cons b q)
    have b: "b < length ws" using Cons.prems(2) Cons by simp
    have 0: "(\<exists>x \<in> set printable. sort_string (ws ! b) = insert_char x (sort_string (ws ! a)))
        \<and> (\<forall>j < length ws. b < j \<longrightarrow> sort_string (ws ! j) \<noteq> sort_string (ws ! b))"
      using Cons.prems(3)[rule_format, of 0] Cons by simp
    then obtain x where x: "x \<in> set printable" "sort_string (ws ! b) = insert_char x (sort_string (ws ! a))"
      by blast
    have "lookup ws (insert_char x (sort_string (ws ! a))) = Some b"
      using 0 x(2) b by (simp add: lookup_Some_iff)
    then have "b \<in> set (succs ws a)" using x(1) mem_succs by blast
    then have su: "b \<in> set (successors s a)" using successors_inv[OF invD(1)[OF assms] a] by simp
    have "\<forall>i. Suc i < length p \<longrightarrow>
        (\<exists>x \<in> set printable. sort_string (ws ! (p ! Suc i)) = insert_char x (sort_string (ws ! (p ! i))))
        \<and> (\<forall>j < length ws. p ! Suc i < j \<longrightarrow> sort_string (ws ! j) \<noteq> sort_string (ws ! (p ! Suc i)))"
    proof (intro allI impI)
      fix i assume "Suc i < length p"
      then have "Suc (Suc i) < length (a # p)" by simp
      from Cons.prems(3)[rule_format, OF this]
      show "(\<exists>x \<in> set printable. sort_string (ws ! (p ! Suc i)) = insert_char x (sort_string (ws ! (p ! i))))
        \<and> (\<forall>j < length ws. p ! Suc i < j \<longrightarrow> sort_string (ws ! j) \<noteq> sort_string (ws ! (p ! Suc i)))"
        by simp
    qed
    then have "chain_path s p" using Cons.IH Cons.prems(2) Cons by simp
    then show ?thesis using Cons ha su by simp
  qed
qed

lemma words_of_inv:
  assumes "run_inv ws s" "\<forall>a \<in> set p. a < length ws"
  shows "words_of s p = map ((!) ws) p"
  unfolding words_of_def
  by (rule map_cong[OF refl]) (use assms inv_heap(2)[OF invD(1)[OF assms(1)]] in simp)

text \<open>
  C2, as amended. Let \<open>s\<close> be a state of a run on words as \<^verbatim>\<open>main\<close> reads them, \<open>w\<close> an entry whose
  memo field has been computed, and \<open>m\<close> the value of \<^verbatim>\<open>longest_chain\<close> for \<open>w\<close>. Then
  \<^verbatim>\<open>print_chains\<close>, started with \<open>m\<close> at depth 0 on a path buffer of 256 slots, returns, and
  its output holds the words of every transition path of \<open>m\<close> entries that starts at \<open>w\<close>.
  In terms of the words: it holds every sequence of \<open>m\<close> dictionary words that starts
  with the word of \<open>w\<close>, in which the canonical form of each word is the one of the word
  before with one character from 33 to 126 inserted, and in which every word after the
  first is the one inserted last among the words of its canonical form (the others are
  not in the index, see C4).
\<close>

theorem print_chains_complete:
  assumes "run_state ws s" "w < length (heap s)" "dp (heap s ! w) \<noteq> - 1"
    "resolve ws s w = Some m" "read_by_main ws" "length ch = 256"
  shows "\<exists>ch' out. print_chains s w m ch 0 [] = Inr (s, ch', out)
     \<and> (\<forall>p. chain_path s p \<and> hd p = w \<and> int (length p) = m \<longrightarrow> words_of s p \<in> set out)
     \<and> (\<forall>p. p \<noteq> [] \<and> hd p = w \<and> int (length p) = m \<and> (\<forall>a \<in> set p. a < length ws)
            \<and> (\<forall>i. Suc i < length p \<longrightarrow>
                 (\<exists>x \<in> set printable.
                     sort_string (ws ! (p ! Suc i)) = insert_char x (sort_string (ws ! (p ! i))))
                 \<and> (\<forall>j < length ws. p ! Suc i < j \<longrightarrow>
                        sort_string (ws ! j) \<noteq> sort_string (ws ! (p ! Suc i))))
          \<longrightarrow> map ((!) ws) p \<in> set out)"
proof -
  have inv: "run_inv ws s" using assms(1) by (rule run_state_inv)
  have w: "w < length ws" using assms(2) invD(3)[OF inv] by simp
  have m: "m = chain_length ws w" using resolve_eq[OF assms(1) w] assms(4) by simp
  have dpw: "dp (heap s ! w) = m" using memo_okD(1)[OF inv w assms(3)] m by simp
  have m1: "1 \<le> m" using chain_length_ge1[OF w] m by simp
  have m256: "m \<le> 256" using chain_length_read[OF assms(5) w] m by simp
  have "int 0 < m" using m1 by simp
  from print_chains_no_overflow[OF m256 this, of s w ch "[]"]
  obtain s' ch' out where r: "print_chains s w m ch 0 [] = Inr (s', ch', out)" by (metis prod_cases3)
  have s': "s' = s" using print_chains_state[OF r] .
  have out: "out = map (words_of s) (paths s (nat (m - 1)) w)"
    using print_chains_out[OF assms(6) _ r] m1 by simp
  have "\<forall>p. chain_path s p \<and> hd p = w \<and> int (length p) = m \<longrightarrow> words_of s p \<in> set out"
  proof (intro allI impI)
    fix p assume p: "chain_path s p \<and> hd p = w \<and> int (length p) = m"
    have "dp (heap s ! w) = int (Suc (nat (m - 1)))" using dpw m1 by simp
    moreover have "length p = Suc (nat (m - 1))" using p m1 by linarith
    ultimately have "p \<in> set (paths s (nat (m - 1)) w)"
      using paths_complete[OF inv w] p by blast
    then show "words_of s p \<in> set out" using out by simp
  qed
  then have 1: "\<forall>p. chain_path s p \<and> hd p = w \<and> int (length p) = m \<longrightarrow> words_of s p \<in> set out" .
  have 2: "\<forall>p. p \<noteq> [] \<and> hd p = w \<and> int (length p) = m \<and> (\<forall>a \<in> set p. a < length ws)
            \<and> (\<forall>i. Suc i < length p \<longrightarrow>
                 (\<exists>x \<in> set printable.
                     sort_string (ws ! (p ! Suc i)) = insert_char x (sort_string (ws ! (p ! i))))
                 \<and> (\<forall>j < length ws. p ! Suc i < j \<longrightarrow>
                        sort_string (ws ! j) \<noteq> sort_string (ws ! (p ! Suc i))))
          \<longrightarrow> map ((!) ws) p \<in> set out"
  proof (intro allI impI)
    fix p
    assume h: "p \<noteq> [] \<and> hd p = w \<and> int (length p) = m \<and> (\<forall>a \<in> set p. a < length ws)
            \<and> (\<forall>i. Suc i < length p \<longrightarrow>
                 (\<exists>x \<in> set printable.
                     sort_string (ws ! (p ! Suc i)) = insert_char x (sort_string (ws ! (p ! i))))
                 \<and> (\<forall>j < length ws. p ! Suc i < j \<longrightarrow>
                        sort_string (ws ! j) \<noteq> sort_string (ws ! (p ! Suc i))))"
    then have ne: "p \<noteq> []" and va: "\<forall>a \<in> set p. a < length ws"
      and st: "\<forall>i. Suc i < length p \<longrightarrow>
                 (\<exists>x \<in> set printable.
                     sort_string (ws ! (p ! Suc i)) = insert_char x (sort_string (ws ! (p ! i))))
                 \<and> (\<forall>j < length ws. p ! Suc i < j \<longrightarrow>
                        sort_string (ws ! j) \<noteq> sort_string (ws ! (p ! Suc i)))"
      by blast+
    have "chain_path s p" using chain_path_words[OF inv ne va st] .
    then have "words_of s p \<in> set out" using 1 h by blast
    then show "map ((!) ws) p \<in> set out" using words_of_inv[OF inv va] by simp
  qed
  from r s' 1 2 show ?thesis by blast
qed

lemma succs_ab0: "succs [''ab'', ''abc'', ''abd''] 0 = [1, 2]"
  by code_simp

lemma succs_ab1: "succs [''ab'', ''abc'', ''abd''] 1 = []"
  by code_simp

lemma succs_ab2: "succs [''ab'', ''abc'', ''abd''] 2 = []"
  by code_simp

lemma chain_length_ab: "chain_length [''ab'', ''abc'', ''abd''] 0 = 2"
proof -
  let ?ws = "[''ab'', ''abc'', ''abd'']"
  have "chain_length ?ws 1 = 1" "chain_length ?ws 2 = 1"
    using chain_length_no_succ[of 1 ?ws] chain_length_no_succ[of 2 ?ws] succs_ab1 succs_ab2 by simp_all
  then show ?thesis using chain_length_Max[of 0 ?ws] succs_ab0 by simp
qed

theorem print_chains_complete_witness:
  "\<exists>s ch' out. run_state [''ab'', ''abc'', ''abd''] s \<and> 0 < length (heap s)
      \<and> dp (heap s ! 0) \<noteq> - 1 \<and> resolve [''ab'', ''abc'', ''abd''] s 0 = Some 2
      \<and> read_by_main [''ab'', ''abc'', ''abd'']
      \<and> print_chains s 0 2 (replicate 256 []) 0 [] = Inr (s, ch', out)
      \<and> [''ab'', ''abc''] \<in> set out \<and> [''ab'', ''abd''] \<in> set out"
proof -
  let ?ws = "[''ab'', ''abc'', ''abd'']"
  have lw: "longest_word ?ws < 4" by code_simp
  from resolved_state[of 0 ?ws 4, OF _ lw]
  obtain s where s: "run_state ?ws s" "dp (heap s ! 0) = chain_length ?ws 0" "length (heap s) = length ?ws"
    by auto
  have inv: "run_inv ?ws s" using s(1) by (rule run_state_inv)
  have l: "0 < length (heap s)" using s(3) by simp
  have d: "dp (heap s ! 0) \<noteq> - 1" using s(2) chain_length_ab by simp
  have r: "resolve ?ws s 0 = Some 2" using resolve_eq[OF s(1), of 0] chain_length_ab by simp
  have rd: "read_by_main ?ws" by (simp add: read_by_main_def MAX_WORD_def)
  from print_chains_complete[OF s(1) l d r rd, of "replicate 256 []"]
  obtain ch' out where o: "print_chains s 0 2 (replicate 256 []) 0 [] = Inr (s, ch', out)"
    "\<forall>p. chain_path s p \<and> hd p = 0 \<and> int (length p) = 2 \<longrightarrow> words_of s p \<in> set out"
    by auto
  have su: "successors s 0 = [1, 2]" using successors_inv[OF invD(1)[OF inv], of 0] succs_ab0 by simp
  have "chain_path s [0, 1]" "chain_path s [0, 2]" using su s(3) by simp_all
  then have "words_of s [0, 1] \<in> set out" "words_of s [0, 2] \<in> set out" using o(2) by simp_all
  moreover have "words_of s [0, 1] = [''ab'', ''abc'']" "words_of s [0, 2] = [''ab'', ''abd'']"
    using inv_heap(2)[OF invD(1)[OF inv]] by (simp_all add: words_of_def)
  ultimately show ?thesis using s(1) l d r rd o(1) by auto
qed

lemma succs_sh0: "succs [''ab'', ''abc'', ''bca''] 0 = [2]"
  by code_simp

lemma succs_sh1: "succs [''ab'', ''abc'', ''bca''] 1 = []"
  by code_simp

lemma succs_sh2: "succs [''ab'', ''abc'', ''bca''] 2 = []"
  by code_simp

lemma chain_length_sh:
  "chain_length [''ab'', ''abc'', ''bca''] 0 = 2"
  "chain_length [''ab'', ''abc'', ''bca''] 1 = 1"
  "chain_length [''ab'', ''abc'', ''bca''] 2 = 1"
proof -
  let ?ws = "[''ab'', ''abc'', ''bca'']"
  show 1: "chain_length ?ws 1 = 1" using chain_length_no_succ[of 1 ?ws] succs_sh1 by simp
  show 2: "chain_length ?ws 2 = 1" using chain_length_no_succ[of 2 ?ws] succs_sh2 by simp
  show "chain_length ?ws 0 = 2" using chain_length_Max[of 0 ?ws] succs_sh0 2 by simp
qed

lemma longest_word_sh: "longest_word [''ab'', ''abc'', ''bca''] = 3"
  by code_simp

lemma step_abc: "sort_string ''abc'' = insert_char 99 (sort_string ''ab'')"
  by code_simp

lemma resolved_sh:
  "run_state [''ab'', ''abc'', ''bca''] (fst (the (longest_chain 4 (fst (the (longest_chain 4 (load [''ab'', ''abc'', ''bca'']) 0))) 1)))"
  "dp (heap (fst (the (longest_chain 4 (fst (the (longest_chain 4 (load [''ab'', ''abc'', ''bca'']) 0))) 1))) ! 0) = 2"
  "dp (heap (fst (the (longest_chain 4 (fst (the (longest_chain 4 (load [''ab'', ''abc'', ''bca'']) 0))) 1))) ! 1) = 1"
  "dp (heap (fst (the (longest_chain 4 (fst (the (longest_chain 4 (load [''ab'', ''abc'', ''bca'']) 0))) 1))) ! 2) = 1"
proof -
  let ?ws = "[''ab'', ''abc'', ''bca'']"
  from resolved_state[of 0 ?ws 4] longest_word_sh
  obtain s1 where s1: "longest_chain 4 (load ?ws) 0 = Some (s1, chain_length ?ws 0)" "run_state ?ws s1"
    "dp (heap s1 ! 0) = chain_length ?ws 0" "length (heap s1) = length ?ws"
    by auto
  have e1: "fst (the (longest_chain 4 (load ?ws) 0)) = s1" using s1(1) by simp
  have inv1: "run_inv ?ws s1" using s1(2) by (rule run_state_inv)
  have "longest_word ?ws - length (?ws ! 1) < 4" using longest_word_sh by simp
  from lc_correct[OF inv1 _ this]
  obtain s where s: "longest_chain 4 s1 1 = Some (s, chain_length ?ws 1)" "run_inv ?ws s"
    "memo_mono s1 s" "dp (heap s ! 1) = chain_length ?ws 1"
    by auto
  have e: "fst (the (longest_chain 4 (fst (the (longest_chain 4 (load ?ws) 0))) 1)) = s"
    using s(1) e1 by simp
  have rs: "run_state ?ws s" using run_state.resolved[OF s1(2) _ s(1)] s1(4) by simp
  have d0: "dp (heap s ! 0) = 2" using s(3) s1(3,4) chain_length_sh(1) by (simp add: memo_mono_def)
  then have "dp (heap s ! 0) \<noteq> - 1" by simp
  from memo_okD(2)[OF s(2) _ this, of 2]
  have "dp (heap s ! 2) \<noteq> - 1" using succs_sh0 by simp
  then have d2: "dp (heap s ! 2) = 1" using memo_okD(1)[OF s(2), of 2] chain_length_sh(3) by simp
  show "run_state [''ab'', ''abc'', ''bca''] (fst (the (longest_chain 4 (fst (the (longest_chain 4 (load [''ab'', ''abc'', ''bca'']) 0))) 1)))" unfolding e by (rule rs)
  show "dp (heap (fst (the (longest_chain 4 (fst (the (longest_chain 4 (load [''ab'', ''abc'', ''bca'']) 0))) 1))) ! 0) = 2" unfolding e by (rule d0)
  show "dp (heap (fst (the (longest_chain 4 (fst (the (longest_chain 4 (load [''ab'', ''abc'', ''bca'']) 0))) 1))) ! 1) = 1" unfolding e using s(4) chain_length_sh(2) by simp
  show "dp (heap (fst (the (longest_chain 4 (fst (the (longest_chain 4 (load [''ab'', ''abc'', ''bca'']) 0))) 1))) ! 2) = 1" unfolding e by (rule d2)
qed

text \<open>
  C2 as stated fails when two words of the dictionary have the same canonical form. In the
  dictionary \<^verbatim>\<open>ab\<close>, \<^verbatim>\<open>abc\<close>, \<^verbatim>\<open>bca\<close>, after \<^verbatim>\<open>longest_chain\<close> has been called for \<^verbatim>\<open>ab\<close> and
  for \<^verbatim>\<open>abc\<close>, every memo field is computed and the value for \<^verbatim>\<open>ab\<close> is 2. The sequence
  \<^verbatim>\<open>ab\<close>, \<^verbatim>\<open>abc\<close> has 2 dictionary words, \<^verbatim>\<open>abc\<close> comes from \<^verbatim>\<open>ab\<close> by the insertion of the
  character 99 (\<^verbatim>\<open>c\<close>), and the value for \<^verbatim>\<open>abc\<close> is 1. But \<^verbatim>\<open>find_word\<close> returns \<^verbatim>\<open>bca\<close>, the
  word inserted last, for the canonical form \<^verbatim>\<open>cba\<close>, and \<^verbatim>\<open>print_chains\<close> started at \<^verbatim>\<open>ab\<close>
  with 2 prints the one chain \<^verbatim>\<open>ab\<close>, \<^verbatim>\<open>bca\<close>.
\<close>

theorem print_chains_complete_counterexample:
  "run_state [''ab'', ''abc'', ''bca''] (fst (the (longest_chain 4 (fst (the (longest_chain 4 (load [''ab'', ''abc'', ''bca'']) 0))) 1)))
   \<and> dp (heap (fst (the (longest_chain 4 (fst (the (longest_chain 4 (load [''ab'', ''abc'', ''bca'']) 0))) 1))) ! 0) = 2
   \<and> dp (heap (fst (the (longest_chain 4 (fst (the (longest_chain 4 (load [''ab'', ''abc'', ''bca'']) 0))) 1))) ! 1) = 1
   \<and> dp (heap (fst (the (longest_chain 4 (fst (the (longest_chain 4 (load [''ab'', ''abc'', ''bca'']) 0))) 1))) ! 2) = 1
   \<and> resolve [''ab'', ''abc'', ''bca''] (fst (the (longest_chain 4 (fst (the (longest_chain 4 (load [''ab'', ''abc'', ''bca'']) 0))) 1))) 0 = Some 2
   \<and> resolve [''ab'', ''abc'', ''bca''] (fst (the (longest_chain 4 (fst (the (longest_chain 4 (load [''ab'', ''abc'', ''bca'']) 0))) 1))) 1 = Some 1
   \<and> read_by_main [''ab'', ''abc'', ''bca'']
   \<and> original (heap (fst (the (longest_chain 4 (fst (the (longest_chain 4 (load [''ab'', ''abc'', ''bca'']) 0))) 1))) ! 0) = ''ab''
   \<and> original (heap (fst (the (longest_chain 4 (fst (the (longest_chain 4 (load [''ab'', ''abc'', ''bca'']) 0))) 1))) ! 1) = ''abc''
   \<and> sort_string ''abc'' = insert_char 99 (sort_string ''ab'')
   \<and> \<not> isl (print_chains (fst (the (longest_chain 4 (fst (the (longest_chain 4 (load [''ab'', ''abc'', ''bca'']) 0))) 1))) 0 2 (replicate 256 []) 0 [])
   \<and> snd (snd (projr (print_chains (fst (the (longest_chain 4 (fst (the (longest_chain 4 (load [''ab'', ''abc'', ''bca'']) 0))) 1))) 0 2 (replicate 256 []) 0 []))) = [[''ab'', ''bca'']]
   \<and> [''ab'', ''abc''] \<notin> set (snd (snd (projr (print_chains (fst (the (longest_chain 4 (fst (the (longest_chain 4 (load [''ab'', ''abc'', ''bca'']) 0))) 1))) 0 2 (replicate 256 []) 0 []))))"
proof -
  let ?ws = "[''ab'', ''abc'', ''bca'']"
  let ?s = "fst (the (longest_chain 4 (fst (the (longest_chain 4 (load ?ws) 0))) 1))"
  have inv: "run_inv ?ws ?s" using resolved_sh(1) by (rule run_state_inv)
  have o: "original (heap ?s ! 0) = ''ab''" "original (heap ?s ! 1) = ''abc''" "original (heap ?s ! 2) = ''bca''"
    using inv_heap(2)[OF invD(1)[OF inv]] by simp_all
  have r0: "resolve ?ws ?s 0 = Some 2" using resolve_eq[OF resolved_sh(1), of 0] chain_length_sh(1) by simp
  have r1: "resolve ?ws ?s 1 = Some 1" using resolve_eq[OF resolved_sh(1), of 1] chain_length_sh(2) by simp
  have rd: "read_by_main ?ws" by (simp add: read_by_main_def MAX_WORD_def)
  have su: "successors ?s 0 = [2]" using successors_inv[OF invD(1)[OF inv], of 0] succs_sh0 by simp
  have len: "length (replicate 256 ([] :: string)) = 256" by simp
  have "\<exists>r. print_chains ?s 0 2 (replicate 256 []) 0 [] = Inr r"
    by (rule print_chains_no_overflow) simp_all
  then obtain r where r: "print_chains ?s 0 2 (replicate 256 []) 0 [] = Inr r" ..
  obtain s' ch' out where r': "r = (s', ch', out)" by (cases r) auto
  then have p: "print_chains ?s 0 2 (replicate 256 []) 0 [] = Inr (s', ch', out)" using r by simp
  have "paths ?s (Suc 0) 0 = [[0, 2]]" using su resolved_sh(4) by simp
  then have "out = map (words_of ?s) [[0, 2]]"
    using print_chains_out[OF len _ p] by simp
  then have out: "out = [[''ab'', ''bca'']]" using o by (simp add: words_of_def)
  have a: "\<not> isl (print_chains ?s 0 2 (replicate 256 []) 0 [])" using p by simp
  have b: "snd (snd (projr (print_chains ?s 0 2 (replicate 256 []) 0 []))) = [[''ab'', ''bca'']]"
    using p out by simp
  have c: "[''ab'', ''abc''] \<notin> set (snd (snd (projr (print_chains ?s 0 2 (replicate 256 []) 0 []))))"
    unfolding b by simp
  show ?thesis using resolved_sh r0 r1 rd o(1,2) step_abc a b c by (intro conjI)
qed




text \<open>
  The dictionary \<open>a_words n\<close>: word \<open>k\<close> is found from word \<open>k - 1\<close> by the character 97 and
  from no other word, and the value of \<^verbatim>\<open>longest_chain\<close> for the empty word is \<open>n\<close>.
\<close>

lemma length_a_words [simp]: "length (a_words n) = n"
  by (simp add: a_words_def)






















text \<open>
  C3, as amended. In every state of a run, every chain that \<^verbatim>\<open>print_chains\<close> prints when
  started at depth 0 for the entry \<open>w\<close> and \<open>m\<close> has exactly \<open>m\<close> words, starts with the
  word of \<open>w\<close>, and is the list of the words of a transition path from \<open>w\<close>: the canonical
  form of each word is the one of the word before with one character from 33 to 126
  inserted. If \<open>m \<noteq> 1\<close>, or if the value of \<^verbatim>\<open>longest_chain\<close> for \<open>w\<close> is 1 (as it is when
  \<open>m\<close> is that value), the value of \<^verbatim>\<open>longest_chain\<close> for the last entry is 1.
\<close>

theorem print_chains_sound:
  assumes "run_state ws s" "w < length (heap s)" "length ch = 256"
    "print_chains s w m ch 0 [] = Inr (s', ch', out)" "c \<in> set out"
  shows "int (length c) = m \<and> hd c = original (heap s ! w)
     \<and> (\<forall>i. Suc i < length c \<longrightarrow>
           (\<exists>x \<in> set printable. sort_string (c ! Suc i) = insert_char x (sort_string (c ! i))
               \<and> mset (c ! Suc i) = add_mset (char_of x) (mset (c ! i))))
     \<and> (\<exists>p. chain_path s p \<and> hd p = w \<and> c = words_of s p \<and> last c = original (heap s ! last p)
           \<and> (m \<noteq> 1 \<or> resolve ws s w = Some 1 \<longrightarrow> resolve ws s (last p) = Some 1))"
proof -
  have inv: "run_inv ws s" using assms(1) by (rule run_state_inv)
  have w: "w < length ws" using assms(2) invD(3)[OF inv] by simp
  have m1: "1 \<le> m"
  proof (rule ccontr)
    assume "\<not> 1 \<le> m"
    then have "m \<le> int 0" by simp
    from print_chains_silent[OF this assms(4)] show False using assms(5) by simp
  qed
  let ?k = "nat (m - 1)"
  have "out = map (words_of s) (paths s ?k w)"
    using print_chains_out[OF assms(3) _ assms(4)] m1 by simp
  then obtain p where p: "p \<in> set (paths s ?k w)" "c = words_of s p" using assms(5) by auto
  from paths_sound[OF inv w p(1)]
  have ps: "chain_path s p" "hd p = w" "length p = Suc ?k" "0 < ?k \<longrightarrow> dp (heap s ! last p) = 1"
    by auto
  have ne: "p \<noteq> []" using ps(3) by auto
  have valid: "\<forall>a \<in> set p. a < length (heap s)"
    and succ: "\<forall>i. Suc i < length p \<longrightarrow> p ! Suc i \<in> set (successors s (p ! i))"
    using chain_path_nth[OF ps(1)] by auto
  have 1: "int (length c) = m" using p(2) ps(3) m1 by (simp add: words_of_def)
  have 2: "hd c = original (heap s ! w)" using p(2) ps(2) ne by (simp add: words_of_def hd_map)
  have 3: "\<forall>i. Suc i < length c \<longrightarrow>
           (\<exists>x \<in> set printable. sort_string (c ! Suc i) = insert_char x (sort_string (c ! i))
               \<and> mset (c ! Suc i) = add_mset (char_of x) (mset (c ! i)))"
  proof (intro allI impI)
    fix i assume i: "Suc i < length c"
    then have ip: "Suc i < length p" using p(2) by (simp add: words_of_def)
    have a: "p ! i < length ws" using valid ip invD(3)[OF inv] by simp
    have "p ! Suc i \<in> set (successors s (p ! i))" using succ ip by simp
    from successor_words[OF inv a this]
    show "\<exists>x \<in> set printable. sort_string (c ! Suc i) = insert_char x (sort_string (c ! i))
               \<and> mset (c ! Suc i) = add_mset (char_of x) (mset (c ! i))"
      using p(2) ip by (simp add: words_of_def)
  qed
  have lastc: "last c = original (heap s ! last p)" using p(2) ne by (simp add: words_of_def last_map)
  have 4: "m \<noteq> 1 \<or> resolve ws s w = Some 1 \<longrightarrow> resolve ws s (last p) = Some 1"
  proof
    assume h: "m \<noteq> 1 \<or> resolve ws s w = Some 1"
    have lp: "last p < length ws" using valid ne invD(3)[OF inv] by simp
    show "resolve ws s (last p) = Some 1"
    proof (cases "m = 1")
      case True
      then have "p = [w]" using ps(2,3) by (cases p) auto
      then show ?thesis using h True by simp
    next
      case False
      then have "0 < ?k" using m1 by simp
      then have d: "dp (heap s ! last p) = 1" using ps(4) by simp
      then have "chain_length ws (last p) = 1" using memo_okD(1)[OF inv lp] by simp
      then show ?thesis using resolve_eq[OF assms(1) lp] by simp
    qed
  qed
  from 1 2 3 ps(1,2) p(2) lastc 4 show ?thesis by blast
qed

lemma take_one_update: "0 < length xs \<Longrightarrow> take (Suc 0) (xs[0 := x]) = [x]"
  by (cases xs) auto

lemma succs_sn0: "succs [''sail'', ''nails''] 0 = [1]"
  by code_simp

lemma succs_sn1: "succs [''sail'', ''nails''] 1 = []"
  by code_simp

lemma chain_length_sn: "chain_length [''sail'', ''nails''] 0 = 2"
proof -
  let ?ws = "[''sail'', ''nails'']"
  have "chain_length ?ws 1 = 1" using chain_length_no_succ[of 1 ?ws] succs_sn1 by simp
  then show ?thesis using chain_length_Max[of 0 ?ws] succs_sn0 by simp
qed

lemma longest_word_sn: "longest_word [''sail'', ''nails''] = 5"
  by code_simp

lemma resolved_sn:
  "run_state [''sail'', ''nails''] (fst (the (longest_chain 6 (load [''sail'', ''nails'']) 0)))"
  "dp (heap (fst (the (longest_chain 6 (load [''sail'', ''nails'']) 0))) ! 0) = 2"
  "length (heap (fst (the (longest_chain 6 (load [''sail'', ''nails'']) 0)))) = 2"
proof -
  let ?ws = "[''sail'', ''nails'']"
  from resolved_state[of 0 ?ws 6] longest_word_sn
  obtain s where s: "longest_chain 6 (load ?ws) 0 = Some (s, chain_length ?ws 0)" "run_state ?ws s"
    "dp (heap s ! 0) = chain_length ?ws 0" "length (heap s) = length ?ws"
    by auto
  have e: "fst (the (longest_chain 6 (load ?ws) 0)) = s" using s(1) by simp
  show "run_state ?ws (fst (the (longest_chain 6 (load ?ws) 0)))" unfolding e by (rule s(2))
  show "dp (heap (fst (the (longest_chain 6 (load ?ws) 0))) ! 0) = 2" unfolding e using s(3) chain_length_sn by simp
  show "length (heap (fst (the (longest_chain 6 (load ?ws) 0)))) = 2" unfolding e using s(4) by simp
qed

text \<open>
  C3 as stated fails for \<open>max_length = 1\<close>: in the dictionary \<^verbatim>\<open>sail\<close>, \<^verbatim>\<open>nails\<close>, resolved
  from \<^verbatim>\<open>sail\<close>, the call for \<^verbatim>\<open>sail\<close> and 1 prints the chain \<^verbatim>\<open>sail\<close>, the only entry with
  this word is entry 0, and \<^verbatim>\<open>longest_chain\<close> returns 2 for it.
\<close>

theorem print_chains_sound_counterexample:
  "run_state [''sail'', ''nails''] (fst (the (longest_chain 6 (load [''sail'', ''nails'']) 0)))
   \<and> dp (heap (fst (the (longest_chain 6 (load [''sail'', ''nails'']) 0))) ! 0) = 2
   \<and> print_chains (fst (the (longest_chain 6 (load [''sail'', ''nails'']) 0))) 0 1 (replicate 256 []) 0 []
       = Inr (fst (the (longest_chain 6 (load [''sail'', ''nails'']) 0)),
              (replicate 256 [])[0 := ''sail''], [[''sail'']])
   \<and> original (heap (fst (the (longest_chain 6 (load [''sail'', ''nails'']) 0))) ! 0) = ''sail''
   \<and> original (heap (fst (the (longest_chain 6 (load [''sail'', ''nails'']) 0))) ! 1) \<noteq> ''sail''
   \<and> resolve [''sail'', ''nails''] (fst (the (longest_chain 6 (load [''sail'', ''nails'']) 0))) 0 = Some 2"
proof -
  let ?ws = "[''sail'', ''nails'']"
  let ?s = "fst (the (longest_chain 6 (load ?ws) 0))"
  have inv: "run_inv ?ws ?s" using resolved_sn(1) by (rule run_state_inv)
  have o: "original (heap ?s ! 0) = ''sail''" "original (heap ?s ! 1) = ''nails''"
    using inv_heap(2)[OF invD(1)[OF inv]] by simp_all
  have p: "print_chains ?s 0 1 (replicate 256 []) 0 [] = Inr (?s, (replicate 256 [])[0 := ''sail''], [[''sail'']])"
    using o(1) by (simp add: Let_def take_one_update)
  have r: "resolve ?ws ?s 0 = Some 2" using resolve_eq[OF resolved_sn(1), of 0] chain_length_sn by simp
  show ?thesis using resolved_sn(1,2) p o r by simp
qed

theorem print_chains_sound_witness:
  "\<exists>s' ch' out.
     run_state [''sail'', ''nails''] (fst (the (longest_chain 6 (load [''sail'', ''nails'']) 0)))
   \<and> 0 < length (heap (fst (the (longest_chain 6 (load [''sail'', ''nails'']) 0))))
   \<and> print_chains (fst (the (longest_chain 6 (load [''sail'', ''nails'']) 0))) 0 2 (replicate 256 []) 0 []
       = Inr (s', ch', out)
   \<and> [''sail'', ''nails''] \<in> set out
   \<and> (\<exists>p. chain_path (fst (the (longest_chain 6 (load [''sail'', ''nails'']) 0))) p
          \<and> [''sail'', ''nails''] = words_of (fst (the (longest_chain 6 (load [''sail'', ''nails'']) 0))) p
          \<and> resolve [''sail'', ''nails''] (fst (the (longest_chain 6 (load [''sail'', ''nails'']) 0))) (last p) = Some 1)"
proof -
  let ?ws = "[''sail'', ''nails'']"
  let ?s = "fst (the (longest_chain 6 (load ?ws) 0))"
  have inv: "run_inv ?ws ?s" using resolved_sn(1) by (rule run_state_inv)
  have o: "original (heap ?s ! 0) = ''sail''" "original (heap ?s ! 1) = ''nails''"
    using inv_heap(2)[OF invD(1)[OF inv]] by simp_all
  have l: "0 < length (heap ?s)" using resolved_sn(3) by simp
  have len: "length (replicate 256 ([] :: string)) = 256" by simp
  have "\<exists>r. print_chains ?s 0 2 (replicate 256 []) 0 [] = Inr r"
    by (rule print_chains_no_overflow) simp_all
  then obtain r where r: "print_chains ?s 0 2 (replicate 256 []) 0 [] = Inr r" ..
  obtain s' ch' out where "r = (s', ch', out)" by (cases r) auto
  then have p: "print_chains ?s 0 2 (replicate 256 []) 0 [] = Inr (s', ch', out)" using r by simp
  have out: "out = map (words_of ?s) (paths ?s 1 0)"
    using print_chains_out[OF len _ p] by simp
  have su: "successors ?s 0 = [1]" using successors_inv[OF invD(1)[OF inv], of 0] succs_sn0 by simp
  have "chain_path ?s [0, 1]" using su resolved_sn(3) by simp
  then have "[0, 1] \<in> set (paths ?s 1 0)"
    using paths_complete[OF inv, of 0 1 "[0, 1]"] resolved_sn(2) by simp
  then have c: "[''sail'', ''nails''] \<in> set out" using out o by (force simp: words_of_def)
  note th = print_chains_sound[OF resolved_sn(1) l len p c]
  have "\<exists>p. chain_path ?s p \<and> hd p = 0 \<and> [''sail'', ''nails''] = words_of ?s p
          \<and> last [''sail'', ''nails''] = original (heap ?s ! last p)
          \<and> ((2 :: int) \<noteq> 1 \<or> resolve ?ws ?s 0 = Some 1 \<longrightarrow> resolve ?ws ?s (last p) = Some 1)"
    by (rule conjunct2[OF conjunct2[OF conjunct2[OF th]]])
  then obtain q where q: "chain_path ?s q" "[''sail'', ''nails''] = words_of ?s q"
      "(2 :: int) \<noteq> 1 \<or> resolve ?ws ?s 0 = Some 1 \<longrightarrow> resolve ?ws ?s (last q) = Some 1"
    by blast
  have "resolve ?ws ?s (last q) = Some 1" using q(3) by simp
  then have "\<exists>p. chain_path ?s p \<and> [''sail'', ''nails''] = words_of ?s p
          \<and> resolve ?ws ?s (last p) = Some 1" using q(1,2) by blast
  then show ?thesis using resolved_sn(1) l p c by blast
qed

lemma heap_insert_word: "b < length (heap s) \<Longrightarrow> heap (insert_word s x) ! b = heap s ! b"
  by (simp add: insert_word_def Let_def nth_append)

text \<open>
  C9. \<^verbatim>\<open>print_chains\<close> returns the state it was given: the entries with all their fields
  and the hash table are as before, in particular no memo field is computed. A call of
  \<^verbatim>\<open>longest_chain\<close> in a state of a run leaves the hash table, the number of entries and
  the words, canonical forms and lengths of all entries as they are, and it leaves every
  memo field that holds a value as it is; \<^verbatim>\<open>insert_word\<close> leaves every entry as it is.
\<close>

theorem print_chains_frame:
  "(print_chains s w m ch d out = Inr (s', ch', out') \<longrightarrow> s' = s)
   \<and> (run_state ws s \<and> a < length (heap s) \<and> longest_chain n s a = Some (s1, v) \<longrightarrow>
        hash_table s1 = hash_table s \<and> length (heap s1) = length (heap s)
        \<and> (\<forall>b < length (heap s).
              original (heap s1 ! b) = original (heap s ! b)
              \<and> sorted_w (heap s1 ! b) = sorted_w (heap s ! b)
              \<and> length_w (heap s1 ! b) = length_w (heap s ! b)
              \<and> (dp (heap s ! b) \<noteq> - 1 \<longrightarrow> dp (heap s1 ! b) = dp (heap s ! b))))
   \<and> (\<forall>b < length (heap s). heap (insert_word s x) ! b = heap s ! b)"
proof (intro conjI impI)
  assume "print_chains s w m ch d out = Inr (s', ch', out')"
  then show "s' = s" by (rule print_chains_state)
next
  show "\<forall>b < length (heap s). heap (insert_word s x) ! b = heap s ! b"
    by (simp add: heap_insert_word)
next
  assume h: "run_state ws s \<and> a < length (heap s) \<and> longest_chain n s a = Some (s1, v)"
  have inv: "run_inv ws s" using h by (simp add: run_state_inv)
  have a: "a < length ws" using h invD(3)[OF inv] by simp
  have l: "longest_chain n s a = Some (s1, v)" using h by simp
  have inv1: "run_inv ws s1" using lc_sound(2)[OF inv a l] .
  have mm: "memo_mono s s1" using lc_sound(3)[OF inv a l] .
  show "hash_table s1 = hash_table s"
    using inv_heap(5)[OF invD(1)[OF inv]] inv_heap(5)[OF invD(1)[OF inv1]] by simp
  show "length (heap s1) = length (heap s)" using invD(3)[OF inv] invD(3)[OF inv1] by simp
  show "\<forall>b < length (heap s).
              original (heap s1 ! b) = original (heap s ! b)
              \<and> sorted_w (heap s1 ! b) = sorted_w (heap s ! b)
              \<and> length_w (heap s1 ! b) = length_w (heap s ! b)
              \<and> (dp (heap s ! b) \<noteq> - 1 \<longrightarrow> dp (heap s1 ! b) = dp (heap s ! b))"
  proof (intro allI impI conjI)
    fix b assume "b < length (heap s)"
    then have b: "b < length ws" using invD(3)[OF inv] by simp
    show "original (heap s1 ! b) = original (heap s ! b)"
      using inv_heap(2)[OF invD(1)[OF inv] b] inv_heap(2)[OF invD(1)[OF inv1] b] by simp
    show "sorted_w (heap s1 ! b) = sorted_w (heap s ! b)"
      using inv_heap(3)[OF invD(1)[OF inv] b] inv_heap(3)[OF invD(1)[OF inv1] b] by simp
    show "length_w (heap s1 ! b) = length_w (heap s ! b)"
      using inv_heap(4)[OF invD(1)[OF inv] b] inv_heap(4)[OF invD(1)[OF inv1] b] by simp
    assume "dp (heap s ! b) \<noteq> - 1"
    then show "dp (heap s1 ! b) = dp (heap s ! b)"
      using mm \<open>b < length (heap s)\<close> by (simp add: memo_mono_def)
  qed
qed

theorem print_chains_frame_witness:
  "print_chains (fst (the (longest_chain 6 (load [''sail'', ''nails'']) 0))) 0 1 (replicate 256 []) 0 []
       = Inr (fst (the (longest_chain 6 (load [''sail'', ''nails'']) 0)),
              (replicate 256 [])[0 := ''sail''], [[''sail'']])
   \<and> run_state [''sail'', ''nails''] (fst (the (longest_chain 6 (load [''sail'', ''nails'']) 0)))
   \<and> 0 < length (heap (fst (the (longest_chain 6 (load [''sail'', ''nails'']) 0))))
   \<and> dp (heap (fst (the (longest_chain 6 (load [''sail'', ''nails'']) 0))) ! 0) = 2
   \<and> (\<exists>s1 v. longest_chain 1 (fst (the (longest_chain 6 (load [''sail'', ''nails'']) 0))) 0 = Some (s1, v)
        \<and> dp (heap s1 ! 0) = 2
        \<and> hash_table s1 = hash_table (fst (the (longest_chain 6 (load [''sail'', ''nails'']) 0))))"
proof -
  let ?ws = "[''sail'', ''nails'']"
  let ?s = "fst (the (longest_chain 6 (load ?ws) 0))"
  have inv: "run_inv ?ws ?s" using resolved_sn(1) by (rule run_state_inv)
  have o: "original (heap ?s ! 0) = ''sail''"
    using inv_heap(2)[OF invD(1)[OF inv]] by simp
  have l: "0 < length (heap ?s)" using resolved_sn(3) by simp
  have p: "print_chains ?s 0 1 (replicate 256 []) 0 [] = Inr (?s, (replicate 256 [])[0 := ''sail''], [[''sail'']])"
    using o by (simp add: Let_def take_one_update)
  have lc: "longest_chain 1 ?s 0 = Some (?s, 2)" using resolved_sn(2) by simp
  note th = print_chains_frame[of ?s 0 1 "replicate 256 []" 0 "[]" ?s "(replicate 256 [])[0 := ''sail'']"
      "[[''sail'']]" ?ws 0 1 ?s 2]
  have "hash_table ?s = hash_table ?s \<and> dp (heap ?s ! 0) = 2"
    using conjunct1[OF conjunct2[OF th]] resolved_sn(1,2) l lc by simp
  then show ?thesis using p resolved_sn(1,2) l lc by simp
qed

section \<open>The order of the printed chains\<close>

lemma insert_char_inj:
  assumes "insert_char c k = insert_char x k" "c \<in> set printable" "x \<in> set printable"
  shows "c = x"
proof -
  have "mset (insert_char c k) = mset (insert_char x k)" using assms(1) by simp
  then have "c mod 256 = x mod 256" by (simp add: mset_insert_char)
  then show ?thesis using assms(2,3) by (simp add: printable_range)
qed

lemma find_unique:
  assumes "x \<in> set xs" "P x" "\<forall>y \<in> set xs. P y \<longrightarrow> y = x"
  shows "List.find P xs = Some x"
  using assms
proof (induction xs)
  case Nil
  then show ?case by simp
next
  case (Cons a xs)
  show ?case
  proof (cases "P a")
    case True
    then have "a = x" using Cons.prems(3) by (metis list.set_intros(1))
    then show ?thesis using True by simp
  next
    case False
    have 1: "x \<in> set xs" using False Cons.prems(1,2) by (metis set_ConsD)
    have 2: "\<forall>y \<in> set xs. P y \<longrightarrow> y = x" using Cons.prems(3) by (metis list.set_intros(2))
    have "List.find P xs = Some x" using 1 Cons.prems(2) 2 by (rule Cons.IH)
    then show ?thesis using False by simp
  qed
qed

lemma strict_printable: "sorted_wrt (<) printable"
proof -
  have "sorted [33..126::int]" by (rule sorted_upto)
  moreover have "distinct [33..126::int]" by (rule distinct_upto)
  ultimately show ?thesis unfolding printable_def by (simp only: strict_sorted_iff)
qed

lemma inserted_lookup:
  assumes "x \<in> set printable" "lookup ws (insert_char x (sort_string (ws ! a))) = Some b"
  shows "inserted (ws ! a) (ws ! b) = Some x"
proof -
  have b: "sort_string (ws ! b) = insert_char x (sort_string (ws ! a))"
    using lookup_SomeD[OF assms(2)] by simp
  have "List.find (\<lambda>c. insert_char c (sort_string (ws ! a)) = insert_char x (sort_string (ws ! a))) printable
          = Some x"
  proof (rule find_unique[where P = "\<lambda>c. insert_char c (sort_string (ws ! a)) = insert_char x (sort_string (ws ! a))"])
    show "x \<in> set printable" by (rule assms(1))
    show "insert_char x (sort_string (ws ! a)) = insert_char x (sort_string (ws ! a))" by (rule refl)
    show "\<forall>y \<in> set printable.
        insert_char y (sort_string (ws ! a)) = insert_char x (sort_string (ws ! a)) \<longrightarrow> y = x"
      using insert_char_inj assms(1) by blast
  qed
  then show ?thesis by (simp only: inserted_def b)
qed

lemma sorted_wrt_concat_map:
  assumes "\<And>b. b \<in> set B \<Longrightarrow> sorted_wrt R (h b)"
    "sorted_wrt (\<lambda>b b'. \<forall>u \<in> set (h b). \<forall>v \<in> set (h b'). R u v) B"
  shows "sorted_wrt R (concat (map h B))"
  using assms
proof (induction B)
  case Nil
  then show ?case by simp
next
  case (Cons b B)
  have 1: "sorted_wrt R (h b)" using Cons.prems(1) by simp
  have 2: "sorted_wrt R (concat (map h B))" using Cons.IH Cons.prems by simp
  have 3: "\<forall>u \<in> set (h b). \<forall>v \<in> set (concat (map h B)). R u v" using Cons.prems(2) by auto
  show ?case using 1 2 3 by (simp add: sorted_wrt_append)
qed

lemma map_filter_chars:
  "set cs \<subseteq> set printable \<Longrightarrow>
   map (\<lambda>b. the (inserted (ws ! a) (ws ! b)))
       (List.map_filter (\<lambda>c. lookup ws (insert_char c (sort_string (ws ! a)))) cs)
     = filter (\<lambda>c. lookup ws (insert_char c (sort_string (ws ! a))) \<noteq> None) cs"
proof (induction cs)
  case Nil
  then show ?case by (simp add: map_filter_simps)
next
  case (Cons c cs)
  show ?case
  proof (cases "lookup ws (insert_char c (sort_string (ws ! a)))")
    case None
    then show ?thesis using Cons by (simp add: map_filter_simps)
  next
    case (Some b)
    have "c \<in> set printable" using Cons.prems by simp
    then have "inserted (ws ! a) (ws ! b) = Some c" using Some by (rule inserted_lookup)
    then show ?thesis using Cons Some by (simp add: map_filter_simps)
  qed
qed

lemma succs_chars_sorted:
  "sorted_wrt (\<lambda>b b'. the (inserted (ws ! a) (ws ! b)) < the (inserted (ws ! a) (ws ! b'))) (succs ws a)"
proof -
  have "sorted_wrt (<) (filter (\<lambda>c. lookup ws (insert_char c (sort_string (ws ! a))) \<noteq> None) printable)"
    using strict_printable by (rule sorted_wrt_filter)
  then have "sorted_wrt (<) (map (\<lambda>b. the (inserted (ws ! a) (ws ! b))) (succs ws a))"
    unfolding succs_def by (simp only: map_filter_chars[OF subset_refl])
  then show ?thesis by (simp only: sorted_wrt_map)
qed

lemma succs_inserted:
  assumes "b \<in> set (succs ws a)"
  shows "\<exists>x \<in> set printable. inserted (ws ! a) (ws ! b) = Some x"
proof -
  obtain x where x: "x \<in> set printable" "lookup ws (insert_char x (sort_string (ws ! a))) = Some b"
    using assms mem_succs[of b ws a] by blast
  then show ?thesis using inserted_lookup by blast
qed

text \<open>The characters inserted along an enumerated path, and their order.\<close>

lemma paths_choices:
  assumes "run_inv ws s"
  shows "a < length ws \<Longrightarrow>
     (\<forall>p \<in> set (paths s k a). \<exists>ci. choices (words_of s p) = map Some ci \<and> set ci \<subseteq> set printable
          \<and> length ci = k)
     \<and> sorted_wrt (<) (map (\<lambda>p. map the (choices (words_of s p))) (paths s k a))"
proof (induction k arbitrary: a)
  case 0
  then show ?case by (simp add: words_of_def)
next
  case (Suc k)
  let ?x = "\<lambda>b. the (inserted (ws ! a) (ws ! b))"
  let ?g = "\<lambda>p. map the (choices (words_of s p))"
  let ?B = "filter (\<lambda>b. dp (heap s ! b) = int (Suc k)) (successors s a)"
  let ?h = "\<lambda>b. map ?g (map ((#) a) (paths s k b))"
  have su: "successors s a = succs ws a" using successors_inv[OF invD(1)[OF assms] Suc.prems] .
  have orig: "\<And>b. b < length ws \<Longrightarrow> original (heap s ! b) = ws ! b"
    using inv_heap(2)[OF invD(1)[OF assms]] .
  have Bs: "\<And>b. b \<in> set ?B \<Longrightarrow> b \<in> set (succs ws a)" using su by simp
  have hd_paths: "\<And>b q. b < length ws \<Longrightarrow> q \<in> set (paths s k b) \<Longrightarrow> \<exists>q'. q = b # q'"
  proof -
    fix b q assume "b < length ws" "q \<in> set (paths s k b)"
    from paths_sound[OF assms this] show "\<exists>q'. q = b # q'" by (cases q) auto
  qed
  have cons: "choices (words_of s (a # q)) = Some (?x b) # choices (words_of s q)"
    if "b \<in> set (succs ws a)" "q \<in> set (paths s k b)" for b q
  proof -
    note bq = that
    have bl: "b < length ws" using succs_length[OF bq(1)] by simp
    obtain q' where q': "q = b # q'" using hd_paths[OF bl bq(2)] by blast
    obtain x where "inserted (ws ! a) (ws ! b) = Some x" using succs_inserted[OF bq(1)] by blast
    then show ?thesis using q' orig[OF bl] orig[OF Suc.prems] by (simp add: words_of_def)
  qed
  have 1: "\<forall>p \<in> set (paths s (Suc k) a). \<exists>ci. choices (words_of s p) = map Some ci
         \<and> set ci \<subseteq> set printable \<and> length ci = Suc k"
  proof
    fix p assume "p \<in> set (paths s (Suc k) a)"
    then obtain b q where b: "b \<in> set ?B" and q: "q \<in> set (paths s k b)" and p: "p = a # q" by auto
    have bs: "b \<in> set (succs ws a)" using Bs[OF b] .
    have bl: "b < length ws" using succs_length[OF bs] by simp
    obtain ci where ci: "choices (words_of s q) = map Some ci" "set ci \<subseteq> set printable" "length ci = k"
      using Suc.IH[OF bl] q by blast
    obtain x where x: "x \<in> set printable" "inserted (ws ! a) (ws ! b) = Some x"
      using succs_inserted[OF bs] by blast
    have "choices (words_of s p) = map Some (x # ci)" using cons[OF bs q] p ci(1) x(2) by simp
    moreover have "set (x # ci) \<subseteq> set printable" using x(1) ci(2) by simp
    moreover have "length (x # ci) = Suc k" using ci(3) by simp
    ultimately show "\<exists>ci. choices (words_of s p) = map Some ci \<and> set ci \<subseteq> set printable \<and> length ci = Suc k"
      by blast
  qed
  have hb: "?h b = map (\<lambda>q. ?x b # ?g q) (paths s k b)" if "b \<in> set (succs ws a)" for b
  proof -
    note bs = that
    have "map (?g \<circ> (#) a) (paths s k b) = map (\<lambda>q. ?x b # ?g q) (paths s k b)"
    proof (rule map_cong[OF refl])
      fix q assume "q \<in> set (paths s k b)"
      then show "(?g \<circ> (#) a) q = ?x b # ?g q" using cons[OF bs] by simp
    qed
    then show ?thesis by (simp only: map_map)
  qed
  have blocks: "\<And>b. b \<in> set ?B \<Longrightarrow> sorted_wrt (<) (?h b)"
  proof -
    fix b assume b: "b \<in> set ?B"
    have bs: "b \<in> set (succs ws a)" using Bs[OF b] .
    have bl: "b < length ws" using succs_length[OF bs] by simp
    have "sorted_wrt (<) (map ?g (paths s k b))" using Suc.IH[OF bl] by blast
    then have "sorted_wrt (\<lambda>p q. ?g p < ?g q) (paths s k b)" by (simp only: sorted_wrt_map)
    then have "sorted_wrt (\<lambda>p q. ?x b # ?g p < ?x b # ?g q) (paths s k b)" by simp
    then have "sorted_wrt (<) (map (\<lambda>q. ?x b # ?g q) (paths s k b))" by (simp only: sorted_wrt_map)
    then show "sorted_wrt (<) (?h b)" by (simp only: hb[OF bs])
  qed
  have sB: "sorted_wrt (\<lambda>b b'. ?x b < ?x b') ?B"
    unfolding su using succs_chars_sorted by (rule sorted_wrt_filter)
  have across: "sorted_wrt (\<lambda>b b'. \<forall>u \<in> set (?h b). \<forall>v \<in> set (?h b'). u < v) ?B"
  proof (rule sorted_wrt_mono_rel[OF _ sB])
    fix b b' assume b: "b \<in> set ?B" "b' \<in> set ?B" and lt: "?x b < ?x b'"
    show "\<forall>u \<in> set (?h b). \<forall>v \<in> set (?h b'). u < v"
    proof (intro ballI)
      fix u v assume u: "u \<in> set (?h b)" and v: "v \<in> set (?h b')"
      obtain t where t: "u = ?x b # t" using u unfolding hb[OF Bs[OF b(1)]] by auto
      obtain t' where t': "v = ?x b' # t'" using v unfolding hb[OF Bs[OF b(2)]] by auto
      show "u < v" using lt t t' by simp
    qed
  qed
  have "map ?g (paths s (Suc k) a) = concat (map ?h ?B)"
    by (simp only: paths.simps map_concat map_map o_def)
  moreover have "sorted_wrt (<) (concat (map ?h ?B))"
    using blocks across by (rule sorted_wrt_concat_map)
  ultimately have 2: "sorted_wrt (<) (map ?g (paths s (Suc k) a))" by (simp only:)
  show ?case using 1 2 by (rule conjI)
qed

text \<open>
  C8. In every state of a run, the chains that a call of \<^verbatim>\<open>print_chains\<close> at depth 0
  prints are in strictly increasing lexicographic order of the characters inserted from
  word to word: each step of each chain inserts one character from 33 to 126, the one the
  loop was at when it found the next word, and the list of these character sequences, in
  the order of the output, is strictly sorted. So no chain is printed twice.
\<close>

theorem print_chains_order:
  assumes "run_state ws s" "w < length (heap s)" "length ch = 256"
    "print_chains s w m ch 0 [] = Inr (s', ch', out)"
  shows "\<exists>cs. map choices out = map (map Some) cs \<and> sorted_wrt (<) cs
           \<and> list_all (\<lambda>c. set c \<subseteq> set printable \<and> int (length c) = m - 1) cs
           \<and> distinct out"
proof (cases "1 \<le> m")
  case False
  then have "m \<le> int 0" by simp
  from print_chains_silent[OF this assms(4)] have "out = []" .
  then have "map choices out = map (map Some) [] \<and> sorted_wrt (<) ([] :: int list list)
           \<and> list_all (\<lambda>c. set c \<subseteq> set printable \<and> int (length c) = m - 1) []
           \<and> distinct out" by simp
  then show ?thesis by blast
next
  case True
  have inv: "run_inv ws s" using assms(1) by (rule run_state_inv)
  have w: "w < length ws" using assms(2) invD(3)[OF inv] by simp
  let ?k = "nat (m - 1)"
  let ?g = "\<lambda>p. map the (choices (words_of s p))"
  let ?cs = "map ?g (paths s ?k w)"
  have out: "out = map (words_of s) (paths s ?k w)"
    using print_chains_out[OF assms(3) _ assms(4)] True by simp
  have pc: "\<forall>p \<in> set (paths s ?k w). \<exists>ci. choices (words_of s p) = map Some ci
        \<and> set ci \<subseteq> set printable \<and> length ci = ?k"
    and so: "sorted_wrt (<) ?cs"
    using paths_choices[OF inv w, of ?k] by blast+
  have 1: "map choices out = map (map Some) ?cs"
    unfolding out map_map
  proof (rule map_cong[OF refl])
    fix p assume "p \<in> set (paths s ?k w)"
    then obtain ci where "choices (words_of s p) = map Some ci" using pc by blast
    then show "(choices \<circ> words_of s) p = (map Some \<circ> ?g) p" by (simp add: comp_def)
  qed
  have 3: "list_all (\<lambda>c. set c \<subseteq> set printable \<and> int (length c) = m - 1) ?cs"
    unfolding list_all_iff
  proof
    fix c assume "c \<in> set ?cs"
    then obtain p where p: "p \<in> set (paths s ?k w)" "c = ?g p" by auto
    obtain ci where ci: "choices (words_of s p) = map Some ci" "set ci \<subseteq> set printable" "length ci = ?k"
      using pc p(1) by blast
    have "c = ci" using p(2) ci(1) by (simp add: comp_def)
    then show "set c \<subseteq> set printable \<and> int (length c) = m - 1" using ci(2,3) True by simp
  qed
  have "distinct ?cs" using so strict_sorted_iff by blast
  then have "distinct (map (map Some) ?cs)"
    using inj_mapI[OF inj_Some] by (metis distinct_map inj_on_subset subset_UNIV)
  then have 4: "distinct out" using 1 by (metis distinct_map)
  from 1 so 3 4 show ?thesis by blast
qed

lemma choices_abc: "choices [''ab'', ''abc''] = [Some 99]"
  by code_simp

lemma choices_abd: "choices [''ab'', ''abd''] = [Some 100]"
  by code_simp

theorem print_chains_order_witness:
  "\<exists>s s' ch' cs. run_state [''ab'', ''abc'', ''abd''] s \<and> 0 < length (heap s)
      \<and> print_chains s 0 2 (replicate 256 []) 0 []
            = Inr (s', ch', [[''ab'', ''abc''], [''ab'', ''abd'']])
      \<and> map choices [[''ab'', ''abc''], [''ab'', ''abd'']] = map (map Some) cs
      \<and> map choices [[''ab'', ''abc''], [''ab'', ''abd'']] = [[Some 99], [Some 100]]
      \<and> sorted_wrt (<) cs"
proof -
  let ?ws = "[''ab'', ''abc'', ''abd'']"
  have lw: "longest_word ?ws < 4" by code_simp
  from resolved_state[of 0 ?ws 4, OF _ lw]
  obtain s where s: "run_state ?ws s" "dp (heap s ! 0) = chain_length ?ws 0" "length (heap s) = length ?ws"
    by auto
  have inv: "run_inv ?ws s" using s(1) by (rule run_state_inv)
  have l: "0 < length (heap s)" using s(3) by simp
  have d0: "dp (heap s ! 0) \<noteq> - 1" using s(2) chain_length_ab by simp
  have su: "successors s 0 = [1, 2]" using successors_inv[OF invD(1)[OF inv], of 0] succs_ab0 by simp
  have c1: "chain_length ?ws 1 = 1" "chain_length ?ws 2 = 1"
    using chain_length_no_succ[of 1 ?ws] chain_length_no_succ[of 2 ?ws] succs_ab1 succs_ab2 by simp_all
  have "dp (heap s ! 1) \<noteq> - 1" "dp (heap s ! 2) \<noteq> - 1"
    using memo_okD(2)[OF inv _ d0] succs_ab0 by simp_all
  then have d: "dp (heap s ! 1) = 1" "dp (heap s ! 2) = 1"
    using memo_okD(1)[OF inv, of 1] memo_okD(1)[OF inv, of 2] c1 by simp_all
  have len: "length (replicate 256 ([] :: string)) = 256" by simp
  have "\<exists>r. print_chains s 0 2 (replicate 256 []) 0 [] = Inr r"
    by (rule print_chains_no_overflow) simp_all
  then obtain r where r: "print_chains s 0 2 (replicate 256 []) 0 [] = Inr r" ..
  obtain s' ch' out where "r = (s', ch', out)" by (cases r) auto
  then have p: "print_chains s 0 2 (replicate 256 []) 0 [] = Inr (s', ch', out)" using r by simp
  have "paths s (Suc 0) 0 = [[0, 1], [0, 2]]" using su d by simp
  then have "out = map (words_of s) [[0, 1], [0, 2]]"
    using print_chains_out[OF len _ p] by simp
  then have out: "out = [[''ab'', ''abc''], [''ab'', ''abd'']]"
    using inv_heap(2)[OF invD(1)[OF inv]] by (simp add: words_of_def)
  from print_chains_order[OF s(1) l len p]
  obtain cs where cs: "map choices out = map (map Some) cs" "sorted_wrt (<) cs" by blast
  have ch: "map choices [[''ab'', ''abc''], [''ab'', ''abd'']] = [[Some 99], [Some 100]]"
    using choices_abc choices_abd by simp
  have p': "print_chains s 0 2 (replicate 256 []) 0 [] = Inr (s', ch', [[''ab'', ''abc''], [''ab'', ''abd'']])"
    using p out by simp
  have cs': "map choices [[''ab'', ''abc''], [''ab'', ''abd'']] = map (map Some) cs"
    using cs(1) out by simp
  show ?thesis
    by (intro exI[of _ s] exI[of _ s'] exI[of _ ch'] exI[of _ cs] conjI s(1) l p' cs' ch cs(2))
qed

end
